theory Spec2Isabelle
  imports Main "HOL-Library.Word" "HOL-Library.AList"
begin

unbundle bit_operations_syntax

section \<open>Basic types (ecs.cpp, lines 55-59)\<close>

text \<open>
  \<^verbatim>\<open>kMaxComponents = 128\<close>; \<^verbatim>\<open>entity_t\<close> and \<^verbatim>\<open>component_id_t\<close> are
  \<^verbatim>\<open>uint64_t\<close>; \<^verbatim>\<open>component_bitfield_t\<close> is \<^verbatim>\<open>__int128\<close>. The bit pattern of the
  128-bit integer is a \<open>128 word\<close>; shifting and masking do not depend on the sign.
\<close>

definition kMaxComponents :: nat where
  "kMaxComponents = 128"

type_synonym entity_t = "64 word"
type_synonym component_id_t = "64 word"
type_synonym component_bitfield_t = "128 word"

section \<open>The hash map\<close>

text \<open>
  Modelled from the spec: module \<^verbatim>\<open>flat_hash_map\<close> (class \<^verbatim>\<open>FlatHashMap\<close>) is imported by
  ecs.cpp but is not part of the source at hand. The specification (4.2) asks for a
  key-to-value mapping with unique keys, \<^verbatim>\<open>insert\<close>, \<^verbatim>\<open>upsert\<close>, \<^verbatim>\<open>erase\<close>, \<^verbatim>\<open>get\<close>
  and an iteration order that is fixed for a snapshot. The model is an association list
  whose order is the iteration order; the operations used by ecs.cpp follow the
  standard associative-container contract: \<^verbatim>\<open>find\<close>, \<^verbatim>\<open>insert\<close> (keeps an existing
  entry), \<^verbatim>\<open>operator[]\<close> (inserts a value-initialised entry for an absent key),
  assignment through \<^verbatim>\<open>operator[]\<close>, and \<^verbatim>\<open>erase\<close>. The specification gives no meaning
  to a read of an absent key (\<^verbatim>\<open>get\<close> has the precondition that the key is present), so
  the insertion by \<^verbatim>\<open>operator[]\<close> is an assumption of the model; the properties below
  that say what a read returns are stated for keys that are present.
  A new entry goes to the end of the
  order and erasing keeps the order of the others; what the properties below use of the
  order is what the specification asks of it: columns with the same history of insertions
  and erasures iterate over the same keys in the same order.
\<close>

type_synonym ('k, 'v) FlatHashMap = "('k \<times> 'v) list"

definition fhm_keys :: "('k, 'v) FlatHashMap \<Rightarrow> 'k list" where
  "fhm_keys m = map fst m"

definition fhm_find :: "('k, 'v) FlatHashMap \<Rightarrow> 'k \<Rightarrow> 'v option" where
  "fhm_find m k = map_of m k"

definition fhm_insert :: "('k, 'v) FlatHashMap \<Rightarrow> 'k \<times> 'v \<Rightarrow> ('k, 'v) FlatHashMap" where
  "fhm_insert m kv = (case map_of m (fst kv) of Some _ \<Rightarrow> m | None \<Rightarrow> m @ [kv])"

text \<open>\<^verbatim>\<open>m[k]\<close> read as an rvalue: the map after the call and the value referred to;
  \<open>d\<close> is the value-initialised mapped value.\<close>

definition fhm_index :: "'v \<Rightarrow> ('k, 'v) FlatHashMap \<Rightarrow> 'k \<Rightarrow> ('k, 'v) FlatHashMap \<times> 'v" where
  "fhm_index d m k = (case map_of m k of Some v \<Rightarrow> (m, v) | None \<Rightarrow> (m @ [(k, d)], d))"

text \<open>\<^verbatim>\<open>m[k] = v\<close>: the entry is overwritten in place, or appended when absent.\<close>

definition fhm_assign :: "('k, 'v) FlatHashMap \<Rightarrow> 'k \<Rightarrow> 'v \<Rightarrow> ('k, 'v) FlatHashMap" where
  "fhm_assign m k v = AList.update k v m"

definition fhm_erase :: "('k, 'v) FlatHashMap \<Rightarrow> 'k \<Rightarrow> ('k, 'v) FlatHashMap" where
  "fhm_erase m k = AList.delete k m"

section \<open>Component bitmask (ecs.cpp, lines 645-696)\<close>

text \<open>
  \<^verbatim>\<open>component_bitfield<Tuple>::helper\<close>: the empty pack gives \<^verbatim>\<open>component_bitfield_t{}\<close>,
  a pack \<^verbatim>\<open>Head, Tail...\<close> gives
  \<^verbatim>\<open>component_bitfield_t{1} << id | helper<Tail...>::value\<close>. A component type is
  represented by its id (\<^verbatim>\<open>component_traits<Component>::id\<close>), a tuple of component
  types by the list of their ids.
\<close>

fun component_bitfield :: "component_id_t list \<Rightarrow> component_bitfield_t" where
  "component_bitfield [] = 0"
| "component_bitfield (head # tail) = (push_bit (unat head) 1) OR component_bitfield tail"

definition ecs_component_mask :: "component_id_t list \<Rightarrow> component_bitfield_t" where
  "ecs_component_mask tuple = component_bitfield tuple"

text \<open>The \<^verbatim>\<open>static_assert(id < kMaxComponents)\<close> of \<^verbatim>\<open>component_traits\<close>, for every
  component type of a tuple.\<close>

definition component_traits_ok :: "component_id_t list \<Rightarrow> bool" where
  "component_traits_ok tuple = list_all (\<lambda>c. unat c < kMaxComponents) tuple"


section \<open>Archetype (ecs.cpp, lines 273-324)\<close>

text \<open>
  \<^verbatim>\<open>Archetype<std::tuple<Components...>>\<close> holds one \<^verbatim>\<open>FlatHashMap<entity_t, Component>\<close>
  per component type. The columns are listed with the id of their component type; component
  values of all types live in one value type \<open>'v\<close>, and \<open>value_init c\<close> is the
  value-initialised component \<^verbatim>\<open>Component{}\<close> of the type with id \<open>c\<close>.
  \<^verbatim>\<open>std::get<FlatHashMap<entity_t, Component>>(m_columns)\<close> exists only for a component
  type of the tuple: a member function asked for another type has no instance, which is
  the result \<open>None\<close>.
\<close>

type_synonym 'v Column = "(entity_t, 'v) FlatHashMap"
type_synonym 'v Archetype = "(component_id_t \<times> 'v Column) list"

definition Archetype_new :: "component_id_t list \<Rightarrow> 'v Archetype" where
  "Archetype_new tuple = map (\<lambda>c. (c, [])) tuple"

definition Archetype_Get ::
  "(component_id_t \<Rightarrow> 'v) \<Rightarrow> 'v Archetype \<Rightarrow> component_id_t \<Rightarrow> entity_t \<Rightarrow> ('v Archetype \<times> 'v) option" where
  "Archetype_Get value_init a c eid =
     (case map_of a c of
        None \<Rightarrow> None
      | Some m \<Rightarrow> (let (m', v) = fhm_index (value_init c) m eid in Some (AList.update c m' a, v)))"

definition Archetype_Set ::
  "'v Archetype \<Rightarrow> component_id_t \<Rightarrow> entity_t \<Rightarrow> 'v \<Rightarrow> 'v Archetype option" where
  "Archetype_Set a c eid val =
     (case map_of a c of
        None \<Rightarrow> None
      | Some m \<Rightarrow> Some (AList.update c (fhm_assign m eid val) a))"

definition Archetype_Clear :: "'v Archetype \<Rightarrow> component_id_t \<Rightarrow> entity_t \<Rightarrow> 'v Archetype option" where
  "Archetype_Clear a c eid =
     (case map_of a c of
        None \<Rightarrow> None
      | Some m \<Rightarrow> Some (AList.update c (fhm_erase m eid) a))"

text \<open>A column iterator is the list of entries from its position on; \<^verbatim>\<open>end()\<close> is the
  empty list.\<close>

definition Archetype_begin :: "'v Archetype \<Rightarrow> component_id_t \<Rightarrow> (entity_t \<times> 'v) list option" where
  "Archetype_begin a c = map_of a c"

definition Archetype_end :: "'v Archetype \<Rightarrow> component_id_t \<Rightarrow> (entity_t \<times> 'v) list option" where
  "Archetype_end a c = (case map_of a c of None \<Rightarrow> None | Some m \<Rightarrow> Some [])"

section \<open>Column set iterator (ecs.cpp, lines 202-255)\<close>

datatype error = NullDispatch | IteratorPastEnd | EmptyColumnSet | AssertFailed | IllFormed

type_synonym 'v ColumnSetIterator = "(entity_t \<times> 'v) list list"

text \<open>
  \<^verbatim>\<open>operator*\<close> takes the entity id from column 0 and one reference per column;
  with no column \<^verbatim>\<open>std::get<0>\<close> has nothing to select (\<open>EmptyColumnSet\<close>), and reading
  an end iterator is outside the container's contract (\<open>IteratorPastEnd\<close>).
  \<^verbatim>\<open>operator++\<close> advances every column; \<^verbatim>\<open>operator==\<close> is the conjunction over the
  columns. The functions are recursions over the list of columns.

  The class declares the constructors \<^verbatim>\<open>ColumnSetIterator()\<close> and
  \<^verbatim>\<open>ColumnSetIterator(ComponentMapIterator<Components>... iterators)\<close> (lines 217-221).
  For the empty pack the second one has an empty parameter list as well, which declares the
  default constructor a second time: \<^verbatim>\<open>ColumnSetIterator<>\<close> is ill-formed, and a program
  that needs the class for the empty pack is rejected by the compiler. Such a program has
  no run; where the model is asked for one, the result is the error \<open>IllFormed\<close>.
\<close>

definition ColumnSetIterator_well_formed :: "component_id_t list \<Rightarrow> bool" where
  "ColumnSetIterator_well_formed Components \<longleftrightarrow> Components \<noteq> []"

definition ColumnSetIterator_deref :: "'v ColumnSetIterator \<Rightarrow> error + (entity_t \<times> 'v list)" where
  "ColumnSetIterator_deref m_columns =
     (case m_columns of
        [] \<Rightarrow> Inl EmptyColumnSet
      | first # _ \<Rightarrow>
          (if list_ex (\<lambda>it. it = []) m_columns then Inl IteratorPastEnd
           else Inr (fst (hd first), map (\<lambda>it. snd (hd it)) m_columns)))"

definition ColumnSetIterator_inc :: "'v ColumnSetIterator \<Rightarrow> error + 'v ColumnSetIterator" where
  "ColumnSetIterator_inc m_columns =
     (if list_ex (\<lambda>it. it = []) m_columns then Inl IteratorPastEnd else Inr (map tl m_columns))"

definition ColumnSetIterator_eq :: "'v ColumnSetIterator \<Rightarrow> 'v ColumnSetIterator \<Rightarrow> bool" where
  "ColumnSetIterator_eq a b = list_all (\<lambda>(x, y). x = y) (zip a b)"

section \<open>Type-erased archetype (ecs.cpp, lines 326-549)\<close>

text \<open>
  \<^verbatim>\<open>TypeErasedArchetype\<close> is a \<^verbatim>\<open>std::any\<close> holding the archetype and a
  \<^verbatim>\<open>ComponentDispatchTable\<close>. The constructor of the table (lines 345-410) fills the entries
  of exactly the component ids of the archetype's tuple with the archetype's member functions;
  every other entry is left unset. A call through the table is therefore the member
  function where it exists and \<open>NullDispatch\<close> (a call through an unset function pointer)
  otherwise. The default-constructed object has no entry set.
\<close>

type_synonym 'v TypeErasedArchetype = "'v Archetype"

definition TypeErasedArchetype_default :: "'v TypeErasedArchetype" where
  "TypeErasedArchetype_default = []"

definition TypeErasedArchetype_Get ::
  "(component_id_t \<Rightarrow> 'v) \<Rightarrow> 'v TypeErasedArchetype \<Rightarrow> component_id_t \<Rightarrow> entity_t
     \<Rightarrow> error + ('v TypeErasedArchetype \<times> 'v)" where
  "TypeErasedArchetype_Get value_init a c entity =
     (case Archetype_Get value_init a c entity of None \<Rightarrow> Inl NullDispatch | Some r \<Rightarrow> Inr r)"

definition TypeErasedArchetype_Set ::
  "'v TypeErasedArchetype \<Rightarrow> component_id_t \<Rightarrow> entity_t \<Rightarrow> 'v \<Rightarrow> error + 'v TypeErasedArchetype" where
  "TypeErasedArchetype_Set a c entity val =
     (case Archetype_Set a c entity val of None \<Rightarrow> Inl NullDispatch | Some a' \<Rightarrow> Inr a')"

definition TypeErasedArchetype_Clear ::
  "'v TypeErasedArchetype \<Rightarrow> component_id_t \<Rightarrow> entity_t \<Rightarrow> error + 'v TypeErasedArchetype" where
  "TypeErasedArchetype_Clear a c entity =
     (case Archetype_Clear a c entity of None \<Rightarrow> Inl NullDispatch | Some a' \<Rightarrow> Inr a')"

fun TypeErasedArchetype_begin ::
  "'v TypeErasedArchetype \<Rightarrow> component_id_t list \<Rightarrow> error + 'v ColumnSetIterator" where
  "TypeErasedArchetype_begin a [] = Inr []"
| "TypeErasedArchetype_begin a (c # cs) =
     (case Archetype_begin a c of
        None \<Rightarrow> Inl NullDispatch
      | Some it \<Rightarrow>
          (case TypeErasedArchetype_begin a cs of Inl e \<Rightarrow> Inl e | Inr its \<Rightarrow> Inr (it # its)))"

fun TypeErasedArchetype_end ::
  "'v TypeErasedArchetype \<Rightarrow> component_id_t list \<Rightarrow> error + 'v ColumnSetIterator" where
  "TypeErasedArchetype_end a [] = Inr []"
| "TypeErasedArchetype_end a (c # cs) =
     (case Archetype_end a c of
        None \<Rightarrow> Inl NullDispatch
      | Some it \<Rightarrow>
          (case TypeErasedArchetype_end a cs of Inl e \<Rightarrow> Inl e | Inr its \<Rightarrow> Inr (it # its)))"

text \<open>\<^verbatim>\<open>drop_row\<close>: \<^verbatim>\<open>Clear\<close> for every component of the tuple, left to right.\<close>

fun drop_row ::
  "component_id_t list \<Rightarrow> 'v TypeErasedArchetype \<Rightarrow> entity_t \<Rightarrow> error + 'v TypeErasedArchetype" where
  "drop_row [] archetype eid = Inr archetype"
| "drop_row (c # cs) archetype eid =
     (case TypeErasedArchetype_Clear archetype c eid of
        Inl e \<Rightarrow> Inl e
      | Inr archetype' \<Rightarrow> drop_row cs archetype' eid)"

text \<open>
  An entity type (the \<^verbatim>\<open>Derived\<close> class): the tuple of its component types
  \<^verbatim>\<open>components_from_bases_t<base_list_t<Derived>>\<close> and, per component, the value
  \<^verbatim>\<open>Default<Derived, Component>::value\<close> where that specialisation exists.
\<close>

record 'v entity_type =
  components_type :: "component_id_t list"
  Default :: "component_id_t \<Rightarrow> 'v option"

definition has_component :: "'v entity_type \<Rightarrow> component_id_t \<Rightarrow> bool" where
  "has_component derived c = (c \<in> set (components_type derived))"

definition set_cell ::
  "(component_id_t \<Rightarrow> 'v) \<Rightarrow> 'v entity_type \<Rightarrow> component_id_t \<Rightarrow> 'v TypeErasedArchetype \<Rightarrow> entity_t
     \<Rightarrow> error + 'v TypeErasedArchetype" where
  "set_cell value_init derived c archetype eid =
     (case Default derived c of
        Some d \<Rightarrow> TypeErasedArchetype_Set archetype c eid d
      | None \<Rightarrow> TypeErasedArchetype_Set archetype c eid (value_init c))"

fun add_row ::
  "(component_id_t \<Rightarrow> 'v) \<Rightarrow> 'v entity_type \<Rightarrow> component_id_t list \<Rightarrow> 'v TypeErasedArchetype \<Rightarrow> entity_t
     \<Rightarrow> error + 'v TypeErasedArchetype" where
  "add_row value_init derived [] archetype eid = Inr archetype"
| "add_row value_init derived (c # cs) archetype eid =
     (case set_cell value_init derived c archetype eid of
        Inl e \<Rightarrow> Inl e
      | Inr archetype' \<Rightarrow> add_row value_init derived cs archetype' eid)"

section \<open>The archetype index\<close>

text \<open>
  Modelled from the spec: module \<^verbatim>\<open>bitwise_trie\<close> (\<^verbatim>\<open>BitwiseTrie\<close>, \<^verbatim>\<open>trie_view\<close>,
  \<^verbatim>\<open>trie_view_match_mask\<close>) is imported by ecs.cpp but is not part of the source at hand.
  The specification (4.5) asks for a set of keys with \<^verbatim>\<open>insert\<close>, and for an enumeration
  that yields every stored key \<open>K\<close> with \<open>K & Q == Q\<close> exactly once, in an order that is
  fixed but not specified. The model keeps the stored keys in a list without repetition and
  enumerates the matching ones in the order of that list; an iterator of the enumeration is
  the list of keys still to come.
\<close>

type_synonym BitwiseTrie = "component_bitfield_t list"

definition trie_Insert :: "BitwiseTrie \<Rightarrow> component_bitfield_t \<Rightarrow> BitwiseTrie" where
  "trie_Insert t k = (if k \<in> set t then t else t @ [k])"

definition trie_view_match_mask :: "BitwiseTrie \<Rightarrow> component_bitfield_t \<Rightarrow> component_bitfield_t list" where
  "trie_view_match_mask t q = filter (\<lambda>k. k AND q = q) t"

section \<open>World and Entity (ecs.cpp, lines 555-639 and 769-844)\<close>

record 'v World =
  s_next_entity_id :: "64 word"
  s_component_trie :: BitwiseTrie
  s_component_archetype_map :: "(component_bitfield_t, 'v TypeErasedArchetype) FlatHashMap"
  s_entity_archetype_map :: "(entity_t, component_bitfield_t) FlatHashMap"

definition World_init :: "'v World" where
  "World_init = \<lparr>s_next_entity_id = 0, s_component_trie = [],
     s_component_archetype_map = [], s_entity_archetype_map = []\<rparr>"

record 'v Entity =
  m_id :: entity_t
  derived_type :: "'v entity_type"

text \<open>\<^verbatim>\<open>fetch_add(1)\<close> returns the old value of the 64-bit counter and adds one to it,
  modulo \<open>2^64\<close>.\<close>

definition AllocateID :: "'v World \<Rightarrow> entity_t \<times> 'v World" where
  "AllocateID w = (s_next_entity_id w, w\<lparr>s_next_entity_id := s_next_entity_id w + 1\<rparr>)"

definition Register ::
  "(component_id_t \<Rightarrow> 'v) \<Rightarrow> 'v Entity \<Rightarrow> component_bitfield_t \<Rightarrow> 'v World \<Rightarrow> error + 'v World" where
  "Register value_init entity components w =
     (let tuple = components_type (derived_type entity);
          w1 = (case fhm_find (s_component_archetype_map w) components of
                  None \<Rightarrow> w\<lparr>s_component_archetype_map :=
                               fhm_insert (s_component_archetype_map w) (components, Archetype_new tuple),
                             s_component_trie := trie_Insert (s_component_trie w) components\<rparr>
                | Some _ \<Rightarrow> w);
          w2 = w1\<lparr>s_entity_archetype_map :=
                    fhm_insert (s_entity_archetype_map w1) (m_id entity, components)\<rparr>;
          (store, archetype) =
             fhm_index TypeErasedArchetype_default (s_component_archetype_map w2) components
      in case add_row value_init (derived_type entity) tuple archetype (m_id entity) of
           Inl e \<Rightarrow> Inl e
         | Inr archetype' \<Rightarrow>
             Inr (w2\<lparr>s_component_archetype_map := fhm_assign store components archetype'\<rparr>))"

definition Unregister :: "'v Entity \<Rightarrow> 'v World \<Rightarrow> error + 'v World" where
  "Unregister entity w =
     (let tuple = components_type (derived_type entity);
          (registry, components) = fhm_index 0 (s_entity_archetype_map w) (m_id entity);
          (store, archetype) =
             fhm_index TypeErasedArchetype_default (s_component_archetype_map w) components;
          eid = m_id entity
      in case drop_row tuple archetype eid of
           Inl e \<Rightarrow> Inl e
         | Inr archetype' \<Rightarrow>
             Inr (w\<lparr>s_entity_archetype_map := registry,
                    s_component_archetype_map := fhm_assign store components archetype'\<rparr>))"

text \<open>Constructor and destructor of \<^verbatim>\<open>Entity\<close>: the member initialiser allocates the id,
  the body registers the entity under the mask of its shape.\<close>

definition Entity_ctor ::
  "(component_id_t \<Rightarrow> 'v) \<Rightarrow> 'v entity_type \<Rightarrow> 'v World \<Rightarrow> error + ('v Entity \<times> 'v World)" where
  "Entity_ctor value_init derived w =
     (let (eid, w1) = AllocateID w;
          this = \<lparr>m_id = eid, derived_type = derived\<rparr>;
          bitmap = ecs_component_mask (components_type derived)
      in case Register value_init this bitmap w1 of
           Inl e \<Rightarrow> Inl e
         | Inr w2 \<Rightarrow> Inr (this, w2))"

definition Entity_dtor :: "'v Entity \<Rightarrow> 'v World \<Rightarrow> error + 'v World" where
  "Entity_dtor this w = Unregister this w"

text \<open>\<^verbatim>\<open>Get\<close> and \<^verbatim>\<open>Set\<close> carry \<^verbatim>\<open>requires (has_component<Entity, Component>())\<close>: a call
  with another component type does not compile. The functions below are the bodies; the
  constraint appears as a hypothesis where they are used.\<close>

definition Entity_Get ::
  "(component_id_t \<Rightarrow> 'v) \<Rightarrow> 'v Entity \<Rightarrow> component_id_t \<Rightarrow> 'v World \<Rightarrow> error + ('v \<times> 'v World)" where
  "Entity_Get value_init this c w =
     (let (registry, components) = fhm_index 0 (s_entity_archetype_map w) (m_id this);
          (store, archetype) =
             fhm_index TypeErasedArchetype_default (s_component_archetype_map w) components
      in case TypeErasedArchetype_Get value_init archetype c (m_id this) of
           Inl e \<Rightarrow> Inl e
         | Inr (archetype', v) \<Rightarrow>
             Inr (v, w\<lparr>s_entity_archetype_map := registry,
                       s_component_archetype_map := fhm_assign store components archetype'\<rparr>))"

definition Entity_Set :: "'v Entity \<Rightarrow> component_id_t \<Rightarrow> 'v \<Rightarrow> 'v World \<Rightarrow> error + 'v World" where
  "Entity_Set this c val w =
     (let (registry, components) = fhm_index 0 (s_entity_archetype_map w) (m_id this);
          (store, archetype) =
             fhm_index TypeErasedArchetype_default (s_component_archetype_map w) components
      in case TypeErasedArchetype_Set archetype c (m_id this) val of
           Inl e \<Rightarrow> Inl e
         | Inr archetype' \<Rightarrow>
             Inr (w\<lparr>s_entity_archetype_map := registry,
                    s_component_archetype_map := fhm_assign store components archetype'\<rparr>))"

definition HasComponent :: "'v Entity \<Rightarrow> component_id_t \<Rightarrow> 'v World \<Rightarrow> bool \<times> 'v World" where
  "HasComponent this c w =
     (let (registry, components) = fhm_index 0 (s_entity_archetype_map w) (m_id this);
          bitmask = push_bit (unat c) (1 :: component_bitfield_t)
      in (components AND bitmask = bitmask, w\<lparr>s_entity_archetype_map := registry\<rparr>))"

section \<open>Components view (ecs.cpp, lines 846-995)\<close>

text \<open>
  The iterator of a view keeps a \<^verbatim>\<open>GeneratorContext\<close>. The archetype iterators range over
  the enumeration of the index; \<^verbatim>\<open>next_row\<close> is the switch of lines 901-936, where the
  fall-through from \<^verbatim>\<open>eNextArchetype\<close> into \<^verbatim>\<open>eBeginArchetype\<close> is a call with the stage
  set to the latter after the increment. \<^verbatim>\<open>s_component_archetype_map[...]\<close> may insert a
  default-constructed archetype, so the world is passed through.
  \<open>Q\<close> is the pack \<^verbatim>\<open>Components...\<close> of the view.
\<close>

datatype Stage = eBeginArchetype | eNextArchetype | eNextRow | eFinished

record 'v GeneratorContext =
  m_stage :: Stage
  m_curr_archetype_it :: "component_bitfield_t list"
  m_sentinel_archetype_it :: "component_bitfield_t list"
  m_curr_row :: "'v ColumnSetIterator"
  m_sentinel_row :: "'v ColumnSetIterator"

function next_row ::
  "component_id_t list \<Rightarrow> 'v World \<Rightarrow> 'v GeneratorContext \<Rightarrow> error + ('v World \<times> 'v GeneratorContext)" where
  "next_row Q w ctx =
     (case m_stage ctx of
        eNextArchetype \<Rightarrow>
          (case m_curr_archetype_it ctx of
             [] \<Rightarrow> Inl IteratorPastEnd
           | _ # rest \<Rightarrow> next_row Q w (ctx\<lparr>m_stage := eBeginArchetype, m_curr_archetype_it := rest\<rparr>))
      | eBeginArchetype \<Rightarrow>
          (if m_curr_archetype_it ctx = m_sentinel_archetype_it ctx
           then Inr (w, ctx\<lparr>m_stage := eFinished\<rparr>)
           else
             (case m_curr_archetype_it ctx of
                [] \<Rightarrow> Inl IteratorPastEnd
              | bitmask # _ \<Rightarrow>
                  (let (store, arch) =
                         fhm_index TypeErasedArchetype_default (s_component_archetype_map w) bitmask;
                       w' = w\<lparr>s_component_archetype_map := store\<rparr>
                   in case TypeErasedArchetype_begin arch Q of
                        Inl e \<Rightarrow> Inl e
                      | Inr b \<Rightarrow>
                          (case TypeErasedArchetype_end arch Q of
                             Inl e \<Rightarrow> Inl e
                           | Inr s \<Rightarrow>
                               (let ctx' = ctx\<lparr>m_curr_row := b, m_sentinel_row := s\<rparr>
                                in if ColumnSetIterator_eq b s
                                   then next_row Q w' (ctx'\<lparr>m_stage := eNextArchetype\<rparr>)
                                   else Inr (w', ctx'\<lparr>m_stage := eNextRow\<rparr>))))))
      | eNextRow \<Rightarrow>
          (case ColumnSetIterator_inc (m_curr_row ctx) of
             Inl e \<Rightarrow> Inl e
           | Inr r \<Rightarrow>
               (let ctx' = ctx\<lparr>m_curr_row := r\<rparr>
                in if ColumnSetIterator_eq r (m_sentinel_row ctx')
                   then next_row Q w (ctx'\<lparr>m_stage := eNextArchetype\<rparr>)
                   else Inr (w, ctx')))
      | eFinished \<Rightarrow> Inl AssertFailed)"
  by pat_completeness auto
termination
  by (relation "measure (\<lambda>(Q, w, ctx). 3 * length (m_curr_archetype_it ctx)
        + (if m_stage ctx = eNextArchetype then 0 else 1))") auto

declare next_row.simps [simp del]

text \<open>The rank of a stage orders the states of the generator for the termination of the
  iteration below.\<close>

definition stage_rank :: "Stage \<Rightarrow> nat" where
  "stage_rank s = (case s of eFinished \<Rightarrow> 0 | eNextRow \<Rightarrow> 1 | _ \<Rightarrow> 2)"

definition Iterator_deref :: "'v GeneratorContext \<Rightarrow> error + (entity_t \<times> 'v list)" where
  "Iterator_deref m_ctx = ColumnSetIterator_deref (m_curr_row m_ctx)"

function view_loop ::
  "component_id_t list \<Rightarrow> 'v World \<Rightarrow> 'v GeneratorContext
     \<Rightarrow> error + ('v World \<times> (entity_t \<times> 'v list) list)" where
  "view_loop Q w it =
     (if m_stage it = eFinished then Inr (w, [])
      else
        (case Iterator_deref it of
           Inl e \<Rightarrow> Inl e
         | Inr row \<Rightarrow>
             (case next_row Q w it of
                Inl e \<Rightarrow> Inl e
              | Inr (w', it') \<Rightarrow>
                  (case view_loop Q w' it' of
                     Inl e \<Rightarrow> Inl e
                   | Inr (w'', rows) \<Rightarrow> Inr (w'', row # rows)))))"
  by pat_completeness auto
termination
proof -
  let ?len = "\<lambda>c :: 'a GeneratorContext. length (m_curr_archetype_it c)"
  let ?sz = "\<lambda>c :: 'a GeneratorContext. sum_list (map length (m_curr_row c))"
  have progress:
    "length (m_curr_archetype_it c') \<le> length (m_curr_archetype_it c)
       \<and> (m_stage c' = eFinished \<or> m_stage c' = eNextRow)
       \<and> (m_stage c = eNextArchetype \<longrightarrow> length (m_curr_archetype_it c') < length (m_curr_archetype_it c))
       \<and> (m_stage c = eNextRow \<longrightarrow> m_stage c' = eNextRow
              \<longrightarrow> length (m_curr_archetype_it c') = length (m_curr_archetype_it c)
              \<longrightarrow> sum_list (map length (m_curr_row c')) < sum_list (map length (m_curr_row c)))"
    if "next_row Q w c = Inr (w', c')"
    for Q and w w' :: "'a World" and c c' :: "'a GeneratorContext"
    using that
  proof (induction Q w c arbitrary: w' c' rule: next_row.induct)
    case (1 Q w ctx)
    note step = "1.prems" [unfolded next_row.simps [of Q w ctx]]
    show ?case
    proof (cases "m_stage ctx")
      case eBeginArchetype
      show ?thesis
      proof (cases "m_curr_archetype_it ctx = m_sentinel_archetype_it ctx")
        case True
        with step eBeginArchetype show ?thesis by auto
      next
        case False
        with step eBeginArchetype obtain bitmask rest where
          it: "m_curr_archetype_it ctx = bitmask # rest"
          by (cases "m_curr_archetype_it ctx") auto
        obtain store arch where
          ix: "fhm_index TypeErasedArchetype_default (s_component_archetype_map w) bitmask = (store, arch)"
          by (cases "fhm_index TypeErasedArchetype_default (s_component_archetype_map w) bitmask")
        from step eBeginArchetype False it ix obtain b s where
          b: "TypeErasedArchetype_begin arch Q = Inr b" and s: "TypeErasedArchetype_end arch Q = Inr s"
          by (auto simp: Let_def split: sum.splits)
        show ?thesis
        proof (cases "ColumnSetIterator_eq b s")
          case True
          with step eBeginArchetype False it ix b s
          have "next_row Q (w\<lparr>s_component_archetype_map := store\<rparr>)
                  (ctx\<lparr>m_curr_row := b, m_sentinel_row := s, m_stage := eNextArchetype\<rparr>) = Inr (w', c')"
            by (simp add: Let_def)
          from "1.IH"(1) [OF eBeginArchetype False it ix [symmetric] refl refl b s refl True this]
          show ?thesis using eBeginArchetype by simp
        next
          case no: False
          with step eBeginArchetype False it ix b s show ?thesis by (auto simp: Let_def)
        qed
      qed
    next
      case eNextArchetype
      with step obtain x rest where it: "m_curr_archetype_it ctx = x # rest"
        by (cases "m_curr_archetype_it ctx") auto
      with step eNextArchetype
      have "next_row Q w (ctx\<lparr>m_stage := eBeginArchetype, m_curr_archetype_it := rest\<rparr>) = Inr (w', c')"
        by simp
      from "1.IH"(2) [OF eNextArchetype it this]
      show ?thesis using eNextArchetype it by simp
    next
      case eNextRow
      with step obtain r where r: "ColumnSetIterator_inc (m_curr_row ctx) = Inr r"
        by (auto split: sum.splits)
      then have nonempty: "\<forall>col \<in> set (m_curr_row ctx). col \<noteq> []" and r_def: "r = map tl (m_curr_row ctx)"
        by (auto simp: ColumnSetIterator_inc_def list_ex_iff split: if_splits)
      show ?thesis
      proof (cases "ColumnSetIterator_eq r (m_sentinel_row ctx)")
        case True
        with step eNextRow r
        have "next_row Q w (ctx\<lparr>m_curr_row := r, m_stage := eNextArchetype\<rparr>) = Inr (w', c')"
          by (simp add: Let_def)
        from "1.IH"(3) [OF eNextRow r refl _ this] True
        show ?thesis using eNextRow by simp
      next
        case False
        with step eNextRow r have c': "c' = ctx\<lparr>m_curr_row := r\<rparr>"
          by (simp add: Let_def)
        from False have "r \<noteq> []"
          by (auto simp: ColumnSetIterator_eq_def)
        then have ne: "m_curr_row ctx \<noteq> []"
          using r_def by auto
        have "sum_list (map length (map tl cols)) < sum_list (map length cols)"
          if "cols \<noteq> []" "\<forall>col \<in> set cols. col \<noteq> []" for cols :: "(entity_t \<times> 'a) list list"
          using that
        proof (induction cols)
          case Nil
          then show ?case by simp
        next
          case (Cons col cols)
          then have "length (tl col) < length col" by (cases col) auto
          moreover have "sum_list (map length (map tl cols)) \<le> sum_list (map length cols)"
            by (induction cols) auto
          ultimately show ?case by simp
        qed
        from this [OF ne nonempty] show ?thesis
          using c' eNextRow r_def by simp
      qed
    next
      case eFinished
      with step show ?thesis by simp
    qed
  qed
  show ?thesis
    apply (relation "inv_image (less_than <*lex*> less_than <*lex*> less_than)
        (\<lambda>(Q, w, it). (length (m_curr_archetype_it it), stage_rank (m_stage it),
                         sum_list (map length (m_curr_row it))))")
    subgoal by (intro wf_inv_image wf_lex_prod wf_less_than)
    subgoal for Q w it row x2 w' it'
      using progress [of Q w it w' it']
      by (cases "m_stage it") (auto simp: stage_rank_def)
    done
qed


text \<open>
  \<^verbatim>\<open>Iterator(begin, end)\<close> starts in \<^verbatim>\<open>eBeginArchetype\<close> with value-initialised row
  iterators and calls \<^verbatim>\<open>next_row\<close>. Its \<^verbatim>\<open>GeneratorContext\<close> has two members of
  type \<^verbatim>\<open>ColumnSetIterator<Components...>\<close> (lines 893-894), so the iterator of a view
  exists only where that class is well-formed. \<^verbatim>\<open>operator==\<close> holds for two finished
  iterators and otherwise compares the contexts. The view is the mask enumeration of the
  world's trie for the mask of \<open>Q\<close>; \<^verbatim>\<open>begin()\<close> and \<^verbatim>\<open>end()\<close> construct an iterator.
\<close>

definition Iterator_ctor ::
  "component_id_t list \<Rightarrow> 'v World \<Rightarrow> component_bitfield_t list \<Rightarrow> component_bitfield_t list
     \<Rightarrow> error + ('v World \<times> 'v GeneratorContext)" where
  "Iterator_ctor Q w begin_it end_it =
     (if \<not> ColumnSetIterator_well_formed Q then Inl IllFormed
      else next_row Q w \<lparr>m_stage = eBeginArchetype, m_curr_archetype_it = begin_it,
             m_sentinel_archetype_it = end_it, m_curr_row = map (\<lambda>c. []) Q,
             m_sentinel_row = map (\<lambda>c. []) Q\<rparr>)"

definition Iterator_eq :: "'v GeneratorContext \<Rightarrow> 'v GeneratorContext \<Rightarrow> bool" where
  "Iterator_eq a b = (if m_stage a = eFinished \<and> m_stage b = eFinished then True else a = b)"

definition components_view_begin ::
  "component_id_t list \<Rightarrow> 'v World \<Rightarrow> error + ('v World \<times> 'v GeneratorContext)" where
  "components_view_begin Q w =
     (let m_arch_view = trie_view_match_mask (s_component_trie w) (ecs_component_mask Q)
      in Iterator_ctor Q w m_arch_view [])"

definition components_view_end ::
  "component_id_t list \<Rightarrow> 'v World \<Rightarrow> error + ('v World \<times> 'v GeneratorContext)" where
  "components_view_end Q w = Iterator_ctor Q w [] []"

text \<open>
  Iterating a view, \<^verbatim>\<open>for (auto it = v.begin(); it != v.end(); ++it) use(*it);\<close>,
  collects the rows \<^verbatim>\<open>*it\<close>. The end iterator is a finished one, so \<^verbatim>\<open>it != v.end()\<close>
  holds exactly while \<open>it\<close> is not finished (lemma \<open>Iterator_eq_end\<close> below), which is the
  test of \<open>view_loop\<close>.
\<close>

definition components_view_rows ::
  "component_id_t list \<Rightarrow> 'v World \<Rightarrow> error + ('v World \<times> (entity_t \<times> 'v list) list)" where
  "components_view_rows Q w =
     (case components_view_begin Q w of
        Inl e \<Rightarrow> Inl e
      | Inr (w', it) \<Rightarrow> view_loop Q w' it)"

declare view_loop.simps [simp del]

section \<open>Notions used in the properties\<close>

text \<open>The ids returned by \<open>n\<close> successive calls of \<^verbatim>\<open>World::AllocateID\<close>, in call order.\<close>

fun AllocateID_n :: "nat \<Rightarrow> 'v World \<Rightarrow> entity_t list \<times> 'v World" where
  "AllocateID_n 0 w = ([], w)"
| "AllocateID_n (Suc n) w =
     (let (eid, w') = AllocateID w; (ids, w'') = AllocateID_n n w' in (eid # ids, w''))"

text \<open>
  A handle is registered when the entity registry maps its id to the mask of its shape; it
  has a row when the archetype stored under that mask holds a cell for the id in the column
  of every component of the shape. A live handle is both.
\<close>

definition registered :: "'v World \<Rightarrow> 'v Entity \<Rightarrow> bool" where
  "registered w e \<longleftrightarrow>
     fhm_find (s_entity_archetype_map w) (m_id e)
       = Some (ecs_component_mask (components_type (derived_type e)))"

definition has_row :: "'v World \<Rightarrow> 'v Entity \<Rightarrow> bool" where
  "has_row w e \<longleftrightarrow>
     (case fhm_find (s_component_archetype_map w)
             (ecs_component_mask (components_type (derived_type e))) of
        None \<Rightarrow> False
      | Some a \<Rightarrow>
          list_all (\<lambda>c. case map_of a c of
                          None \<Rightarrow> False
                        | Some col \<Rightarrow> m_id e \<in> set (fhm_keys col))
            (components_type (derived_type e)))"

definition live :: "'v World \<Rightarrow> 'v Entity \<Rightarrow> bool" where
  "live w e \<longleftrightarrow> registered w e \<and> has_row w e"

text \<open>
  An entity type is well-formed when its component ids pass the \<^verbatim>\<open>static_assert\<close> of
  \<^verbatim>\<open>component_traits\<close> and its component types are pairwise different (member access by
  type, \<^verbatim>\<open>std::get<T>\<close>, needs that).
\<close>

definition entity_type_ok :: "'v entity_type \<Rightarrow> bool" where
  "entity_type_ok derived \<longleftrightarrow>
     component_traits_ok (components_type derived) \<and> distinct (components_type derived)"

text \<open>
  The states a program can reach: it starts with the empty world and no handle, constructs
  entities of well-formed types, calls \<^verbatim>\<open>Get\<close>, \<^verbatim>\<open>Set\<close> (for components of the shape, as
  the \<^verbatim>\<open>requires\<close> clauses demand) and \<^verbatim>\<open>HasComponent\<close> on handles it holds, moves
  handles it holds and destroys handles it holds. The move constructor is defaulted
  (\<^verbatim>\<open>Entity(Entity&&) = default\<close>, line 620): it copies \<^verbatim>\<open>m_id\<close> and calls neither
  \<^verbatim>\<open>AllocateID\<close> nor \<^verbatim>\<open>Register\<close>, so the world is unchanged and the program holds one
  more handle, with the id and the type of the handle moved from; the destructor runs for
  both. The handles are kept in a list, in which a handle occurs once for every object
  holding it. A call that does not return (an error of the model) has no successor.
\<close>

inductive reachable :: "(component_id_t \<Rightarrow> 'v) \<Rightarrow> 'v World \<Rightarrow> 'v Entity list \<Rightarrow> bool"
  for value_init :: "component_id_t \<Rightarrow> 'v" where
  start: "reachable value_init World_init []"
| construct:
    "reachable value_init w handles \<Longrightarrow> entity_type_ok derived
       \<Longrightarrow> Entity_ctor value_init derived w = Inr (e, w')
       \<Longrightarrow> reachable value_init w' (e # handles)"
| get:
    "reachable value_init w handles \<Longrightarrow> e \<in> set handles \<Longrightarrow> has_component (derived_type e) c
       \<Longrightarrow> Entity_Get value_init e c w = Inr (v, w')
       \<Longrightarrow> reachable value_init w' handles"
| set:
    "reachable value_init w handles \<Longrightarrow> e \<in> set handles \<Longrightarrow> has_component (derived_type e) c
       \<Longrightarrow> Entity_Set e c v w = Inr w'
       \<Longrightarrow> reachable value_init w' handles"
| has:
    "reachable value_init w handles \<Longrightarrow> e \<in> set handles
       \<Longrightarrow> HasComponent e c w = (b, w')
       \<Longrightarrow> reachable value_init w' handles"
| move:
    "reachable value_init w handles \<Longrightarrow> e \<in> set handles
       \<Longrightarrow> reachable value_init w (e # handles)"
| destroy:
    "reachable value_init w handles \<Longrightarrow> e \<in> set handles
       \<Longrightarrow> Entity_dtor e w = Inr w'
       \<Longrightarrow> reachable value_init w' (remove1 e handles)"

text \<open>The states reached by the programs that move no handle.\<close>

inductive reachable_unmoved :: "(component_id_t \<Rightarrow> 'v) \<Rightarrow> 'v World \<Rightarrow> 'v Entity list \<Rightarrow> bool"
  for value_init :: "component_id_t \<Rightarrow> 'v" where
  start: "reachable_unmoved value_init World_init []"
| construct:
    "reachable_unmoved value_init w handles \<Longrightarrow> entity_type_ok derived
       \<Longrightarrow> Entity_ctor value_init derived w = Inr (e, w')
       \<Longrightarrow> reachable_unmoved value_init w' (e # handles)"
| get:
    "reachable_unmoved value_init w handles \<Longrightarrow> e \<in> set handles
       \<Longrightarrow> has_component (derived_type e) c
       \<Longrightarrow> Entity_Get value_init e c w = Inr (v, w')
       \<Longrightarrow> reachable_unmoved value_init w' handles"
| set:
    "reachable_unmoved value_init w handles \<Longrightarrow> e \<in> set handles
       \<Longrightarrow> has_component (derived_type e) c
       \<Longrightarrow> Entity_Set e c v w = Inr w'
       \<Longrightarrow> reachable_unmoved value_init w' handles"
| has:
    "reachable_unmoved value_init w handles \<Longrightarrow> e \<in> set handles
       \<Longrightarrow> HasComponent e c w = (b, w')
       \<Longrightarrow> reachable_unmoved value_init w' handles"
| destroy:
    "reachable_unmoved value_init w handles \<Longrightarrow> e \<in> set handles
       \<Longrightarrow> Entity_dtor e w = Inr w'
       \<Longrightarrow> reachable_unmoved value_init w' (remove1 e handles)"

text \<open>The invariant behind the agreement of index and store.\<close>

definition index_inv :: "'v World \<Rightarrow> 'v Entity list \<Rightarrow> bool" where
  "index_inv w handles \<longleftrightarrow>
     set (s_component_trie w) = set (fhm_keys (s_component_archetype_map w))
     \<and> (\<forall>(e, B) \<in> set (s_entity_archetype_map w). B \<in> set (fhm_keys (s_component_archetype_map w)))
     \<and> (\<forall>h \<in> set handles. m_id h \<in> set (fhm_keys (s_entity_archetype_map w)))"


text \<open>
  The entities stored in an archetype are the keys of its columns. In a consistent archetype
  stored under mask \<open>B\<close> the columns are those of the components whose bits make up
  \<open>B\<close>, each component once, and all columns hold the same entity ids in the same order,
  each id once. In a consistent world the index lists each mask once and lists exactly the
  keys of the store, the store has each key once, every archetype is consistent, every
  stored entity is registered under the mask of its archetype, and every registered id is
  below the id counter and registered under a mask of the store.
\<close>

definition archetype_entities :: "'v Archetype \<Rightarrow> entity_t list" where
  "archetype_entities a = (case a of [] \<Rightarrow> [] | (c, col) # rest \<Rightarrow> fhm_keys col)"

definition archetype_inv :: "component_bitfield_t \<Rightarrow> 'v Archetype \<Rightarrow> bool" where
  "archetype_inv B a \<longleftrightarrow>
     B = ecs_component_mask (map fst a)
     \<and> component_traits_ok (map fst a)
     \<and> distinct (map fst a)
     \<and> distinct (archetype_entities a)
     \<and> (\<forall>(c, col) \<in> set a. fhm_keys col = archetype_entities a)"

definition world_inv :: "'v World \<Rightarrow> bool" where
  "world_inv w \<longleftrightarrow>
     distinct (s_component_trie w)
     \<and> set (s_component_trie w) = set (fhm_keys (s_component_archetype_map w))
     \<and> distinct (fhm_keys (s_component_archetype_map w))
     \<and> (\<forall>(B, a) \<in> set (s_component_archetype_map w).
           archetype_inv B a
           \<and> (\<forall>e \<in> set (archetype_entities a). fhm_find (s_entity_archetype_map w) e = Some B))
     \<and> (\<forall>(e, B) \<in> set (s_entity_archetype_map w).
           B \<in> set (fhm_keys (s_component_archetype_map w)) \<and> e < s_next_entity_id w)"

text \<open>The handles held by a program that moves no handle have pairwise different ids,
  are live, and have well-formed types.\<close>

definition handles_inv :: "'v World \<Rightarrow> 'v Entity list \<Rightarrow> bool" where
  "handles_inv w handles \<longleftrightarrow>
     distinct (map m_id handles)
     \<and> (\<forall>h \<in> set handles. live w h \<and> entity_type_ok (derived_type h))"


text \<open>The value \<^verbatim>\<open>add_row\<close> stores for a component of a new entity.\<close>

definition default_of :: "(component_id_t \<Rightarrow> 'v) \<Rightarrow> 'v entity_type \<Rightarrow> component_id_t \<Rightarrow> 'v" where
  "default_of value_init derived c = (case Default derived c of Some d \<Rightarrow> d | None \<Rightarrow> value_init c)"


text \<open>
  What a view is expected to yield. \<open>lockstep_rows\<close> reads a list of columns side by side:
  a row takes the entity id of the first column's current entry and the value of every
  column's current entry, until a column ends. \<open>query_columns\<close> are the columns of an
  archetype for the components of a query, \<open>archetype_rows\<close> the rows read from them, and
  \<open>view_spec\<close> the rows of all archetypes whose mask the index enumerates for the query,
  in the order of the enumeration. \<open>query_ready\<close> says that an archetype is stored under
  a mask, with a column for every component of the query, all of the same length.
\<close>

function lockstep_rows :: "'v ColumnSetIterator \<Rightarrow> (entity_t \<times> 'v list) list" where
  "lockstep_rows cols =
     (case ColumnSetIterator_deref cols of
        Inl e \<Rightarrow> []
      | Inr row \<Rightarrow> row # lockstep_rows (map tl cols))"
  by pat_completeness auto
termination
proof (relation "measure (\<lambda>cols. length (hd cols))")
  show "wf (measure (\<lambda>cols :: 'a ColumnSetIterator. length (hd cols)))"
    by simp
next
  fix cols :: "'a ColumnSetIterator" and row
  assume "ColumnSetIterator_deref cols = Inr row"
  then have "cols \<noteq> []" "hd cols \<noteq> []"
    by (auto simp: ColumnSetIterator_deref_def list_ex_iff split: list.splits if_splits)
  then show "(map tl cols, cols) \<in> measure (\<lambda>cols. length (hd cols))"
    by (cases cols) (auto simp: hd_map)
qed

declare lockstep_rows.simps [simp del]

definition query_columns :: "'v Archetype \<Rightarrow> component_id_t list \<Rightarrow> 'v ColumnSetIterator" where
  "query_columns a Q = map (\<lambda>c. case map_of a c of None \<Rightarrow> [] | Some col \<Rightarrow> col) Q"

definition archetype_rows :: "'v Archetype \<Rightarrow> component_id_t list \<Rightarrow> (entity_t \<times> 'v list) list" where
  "archetype_rows a Q = lockstep_rows (query_columns a Q)"

definition rows_of_masks ::
  "'v World \<Rightarrow> component_id_t list \<Rightarrow> component_bitfield_t list \<Rightarrow> (entity_t \<times> 'v list) list" where
  "rows_of_masks w Q Bs =
     concat (map (\<lambda>B. case fhm_find (s_component_archetype_map w) B of
                         None \<Rightarrow> []
                       | Some a \<Rightarrow> archetype_rows a Q) Bs)"

definition query_ready :: "'v World \<Rightarrow> component_id_t list \<Rightarrow> component_bitfield_t \<Rightarrow> bool" where
  "query_ready w Q B \<longleftrightarrow>
     (case fhm_find (s_component_archetype_map w) B of
        None \<Rightarrow> False
      | Some a \<Rightarrow>
          (\<forall>c \<in> set Q. map_of a c \<noteq> None)
          \<and> (\<forall>col \<in> set (query_columns a Q). length col = length (archetype_entities a)))"

definition view_spec :: "component_id_t list \<Rightarrow> 'v World \<Rightarrow> (entity_t \<times> 'v list) list" where
  "view_spec Q w =
     rows_of_masks w Q (trie_view_match_mask (s_component_trie w) (ecs_component_mask Q))"


subsection \<open>A small world\<close>

text \<open>
  Components are natural numbers, value-initialised to 0. Shape \<open>shape_A\<close> has the component
  with id 0, shape \<open>shape_B\<close> the components with ids 0 and 1 and the default 7 for
  component 1. \<open>world_A\<close> is the world after constructing an entity of shape A in the
  initial world, \<open>world_AB\<close> the world after constructing an entity of shape B next.
\<close>

definition value_init0 :: "component_id_t \<Rightarrow> nat" where
  "value_init0 c = 0"

definition shape_A :: "nat entity_type" where
  "shape_A = \<lparr>components_type = [0], Default = (\<lambda>c. None)\<rparr>"

definition shape_B :: "nat entity_type" where
  "shape_B = \<lparr>components_type = [0, 1], Default = (\<lambda>c. if c = 1 then Some 7 else None)\<rparr>"

definition entity_A :: "nat Entity" where
  "entity_A = \<lparr>m_id = 0, derived_type = shape_A\<rparr>"

definition entity_B :: "nat Entity" where
  "entity_B = \<lparr>m_id = 1, derived_type = shape_B\<rparr>"

definition world_A :: "nat World" where
  "world_A = \<lparr>s_next_entity_id = 1, s_component_trie = [1],
     s_component_archetype_map = [(1, [(0, [(0, 0)])])],
     s_entity_archetype_map = [(0, 1)]\<rparr>"

definition world_AB :: "nat World" where
  "world_AB = \<lparr>s_next_entity_id = 2, s_component_trie = [1, 3],
     s_component_archetype_map = [(1, [(0, [(0, 0)])]), (3, [(0, [(1, 0)]), (1, [(1, 7)])])],
     s_entity_archetype_map = [(0, 1), (1, 3)]\<rparr>"

section \<open>Properties\<close>

lemma bit_one_shl: "bit (push_bit n (1 :: component_bitfield_t)) i \<longleftrightarrow> i = n \<and> n < 128"
  by (auto simp: bit_exp_iff)

lemma bit_component_bitfield:
  "bit (component_bitfield cs) i \<longleftrightarrow> i < 128 \<and> (\<exists>c \<in> set cs. unat c = i)"
proof (induction cs)
  case Nil
  show ?case by simp
next
  case (Cons c cs)
  have "bit (component_bitfield (c # cs)) i
        \<longleftrightarrow> bit (push_bit (unat c) (1 :: component_bitfield_t)) i \<or> bit (component_bitfield cs) i"
    by (simp add: bit_or_iff del: push_bit_of_1)
  then show ?case
    unfolding bit_one_shl Cons.IH by auto
qed

text \<open>
  Claim C4. For a shape whose component ids all lie in \<open>[0, 128)\<close>, bit \<open>i\<close> of the
  compile-time mask is set if and only if \<open>i\<close> is the id of one of the shape's components;
  this includes id 127, the top bit of the 128-bit value. Equivalently the mask is the
  bitwise OR of the values \<open>1 << id\<close>.
\<close>

theorem ecs_component_mask_bits:
  assumes "component_traits_ok cs"
  shows "(\<forall>i. bit (ecs_component_mask cs) i \<longleftrightarrow> i \<in> unat ` set cs)
       \<and> ecs_component_mask cs = foldr (\<lambda>c acc. push_bit (unat c) 1 OR acc) cs 0
       \<and> (\<forall>c. unat c < kMaxComponents \<longrightarrow> (bit (ecs_component_mask cs) (unat c) \<longleftrightarrow> c \<in> set cs))"
proof -
  have in_range: "\<forall>c \<in> set cs. unat c < 128"
    using assms by (simp add: component_traits_ok_def kMaxComponents_def list_all_iff)
  have bits: "\<forall>i. bit (ecs_component_mask cs) i \<longleftrightarrow> i \<in> unat ` set cs"
    using in_range by (auto simp: ecs_component_mask_def bit_component_bitfield)
  have fold: "ecs_component_mask cs = foldr (\<lambda>c acc. push_bit (unat c) 1 OR acc) cs 0"
    unfolding ecs_component_mask_def by (induction cs) simp_all
  have members: "\<forall>c. unat c < kMaxComponents \<longrightarrow> (bit (ecs_component_mask cs) (unat c) \<longleftrightarrow> c \<in> set cs)"
  proof (intro allI impI)
    fix c :: component_id_t
    have "unat c = unat x \<Longrightarrow> c = x" for x :: component_id_t
      by (simp add: word_unat_eq_iff)
    then have "unat c \<in> unat ` set cs \<longleftrightarrow> c \<in> set cs"
      by blast
    with bits show "bit (ecs_component_mask cs) (unat c) \<longleftrightarrow> c \<in> set cs"
      by simp
  qed
  show ?thesis using bits fold members by blast
qed

theorem ecs_component_mask_bits_witness:
  "component_traits_ok [0, 5, 127]
   \<and> bit (ecs_component_mask [0, 5, 127]) 127
   \<and> \<not> bit (ecs_component_mask [0, 5, 127]) 6
   \<and> ecs_component_mask [0, 5, 127] = push_bit 127 1 OR 33"
proof -
  have ok: "component_traits_ok [0, 5, 127]"
    by (simp add: component_traits_ok_def kMaxComponents_def)
  have m: "ecs_component_mask [0, 5, 127 :: component_id_t] = push_bit 127 1 OR 33"
    by (simp add: ecs_component_mask_def)
  from ecs_component_mask_bits [OF ok]
  have "\<forall>i. bit (ecs_component_mask [0, 5, 127]) i \<longleftrightarrow> i \<in> unat ` set [0, 5, 127 :: component_id_t]"
    by blast
  then have "bit (ecs_component_mask [0, 5, 127]) 127" "\<not> bit (ecs_component_mask [0, 5, 127]) 6"
    by simp_all
  with ok m show ?thesis by blast
qed


subsection \<open>The small world is what the constructors build\<close>

lemmas model_defs =
  Entity_ctor_def Entity_dtor_def AllocateID_def World_init_def Register_def Unregister_def
  ecs_component_mask_def fhm_find_def fhm_insert_def fhm_index_def fhm_assign_def fhm_erase_def
  fhm_keys_def trie_Insert_def Archetype_new_def set_cell_def TypeErasedArchetype_default_def
  TypeErasedArchetype_Set_def Archetype_Set_def TypeErasedArchetype_Clear_def Archetype_Clear_def
  TypeErasedArchetype_Get_def Archetype_Get_def Entity_Get_def Entity_Set_def HasComponent_def

lemmas example_defs =
  value_init0_def shape_A_def shape_B_def entity_A_def entity_B_def world_A_def world_AB_def

lemma ctor_A: "Entity_ctor value_init0 shape_A World_init = Inr (entity_A, world_A)"
  by (simp add: model_defs example_defs Let_def)

lemma ctor_B: "Entity_ctor value_init0 shape_B world_A = Inr (entity_B, world_AB)"
  by (simp add: model_defs example_defs Let_def)

lemma live_A: "live world_AB entity_A"
  by (simp add: live_def registered_def has_row_def model_defs example_defs)

lemma live_B: "live world_AB entity_B"
  by (simp add: live_def registered_def has_row_def model_defs example_defs)

subsection \<open>Facts about the containers\<close>

lemma has_bit:
  assumes "n < 128"
  shows "(B AND push_bit n (1 :: component_bitfield_t) = push_bit n 1) \<longleftrightarrow> bit B n"
proof
  assume "B AND push_bit n (1 :: component_bitfield_t) = push_bit n 1"
  then have "bit (B AND push_bit n (1 :: component_bitfield_t)) n = bit (push_bit n (1 :: component_bitfield_t)) n"
    by simp
  then show "bit B n"
    using assms unfolding bit_and_iff bit_one_shl by simp
next
  assume "bit B n"
  show "B AND push_bit n (1 :: component_bitfield_t) = push_bit n 1"
  proof (rule bit_eqI)
    fix i
    show "bit (B AND push_bit n (1 :: component_bitfield_t)) i = bit (push_bit n (1 :: component_bitfield_t)) i"
      unfolding bit_and_iff bit_one_shl using \<open>bit B n\<close> by auto
  qed
qed

lemma fhm_index_present: "map_of m k = Some v \<Longrightarrow> fhm_index d m k = (m, v)"
  by (simp add: fhm_index_def)

lemma fhm_index_absent: "map_of m k = None \<Longrightarrow> fhm_index d m k = (m @ [(k, d)], d)"
  by (simp add: fhm_index_def)

lemma bit_mask_member:
  assumes "unat c < kMaxComponents"
  shows "bit (ecs_component_mask cs) (unat c) \<longleftrightarrow> c \<in> set cs"
proof -
  have "unat x = unat c \<Longrightarrow> x = c" for x :: component_id_t
    by (simp add: word_unat_eq_iff)
  then have "(\<exists>x \<in> set cs. unat x = unat c) \<longleftrightarrow> c \<in> set cs"
    by blast
  then show ?thesis
    using assms by (simp add: ecs_component_mask_def bit_component_bitfield kMaxComponents_def)
qed

lemma update_keys_present:
  "map_of al k = Some x \<Longrightarrow> map fst (AList.update k v al) = map fst al"
  by (simp add: update_keys weak_map_of_SomeI map_of_eq_None_iff [symmetric])

lemma live_row:
  assumes "live w e" "has_component (derived_type e) c"
  obtains a col where
    "fhm_find (s_entity_archetype_map w) (m_id e)
       = Some (ecs_component_mask (components_type (derived_type e)))"
    "fhm_find (s_component_archetype_map w) (ecs_component_mask (components_type (derived_type e)))
       = Some a"
    "map_of a c = Some col"
    "m_id e \<in> set (fhm_keys col)"
  using assms
  by (auto simp: live_def registered_def has_row_def has_component_def list_all_iff
      split: option.splits)


subsection \<open>Entity ids\<close>

lemma AllocateID_n_ids:
  "fst (AllocateID_n n w) = map (\<lambda>i. s_next_entity_id w + of_nat i) [0..<n]"
proof (induction n arbitrary: w)
  case 0
  show ?case by simp
next
  case (Suc n)
  have "fst (AllocateID_n (Suc n) w)
        = s_next_entity_id w # fst (AllocateID_n n (w\<lparr>s_next_entity_id := s_next_entity_id w + 1\<rparr>))"
    by (simp add: AllocateID_def split: prod.splits)
  also have "\<dots> = s_next_entity_id w # map (\<lambda>i. s_next_entity_id w + 1 + of_nat i) [0..<n]"
    by (simp add: Suc.IH)
  also have "\<dots> = map (\<lambda>i. s_next_entity_id w + of_nat i) [0..<Suc n]"
    by (simp add: upt_rec [of 0 "Suc n"] map_Suc_upt [symmetric] ac_simps del: upt_Suc)
  finally show ?case .
qed

lemma unat_plus_of_nat:
  assumes "unat (s :: 64 word) + i < 2 ^ 64"
  shows "unat (s + of_nat i) = unat s + i"
proof -
  have "i < 2 ^ 64" using assms by simp
  then have "unat (of_nat i :: 64 word) = i"
    by (simp add: unat_of_nat)
  then show ?thesis
    using assms by (simp add: unat_add_lem [THEN iffD1])
qed

lemma less_ids:
  assumes "i < j" "unat (s :: 64 word) + j < 2 ^ 64"
  shows "s + of_nat i < s + of_nat j"
  using assms by (simp add: word_less_nat_alt unat_plus_of_nat)

lemma sorted_ids:
  assumes "unat (s :: 64 word) + n \<le> 2 ^ 64"
  shows "sorted_wrt (<) (map (\<lambda>i. s + of_nat i) [0..<n])"
  using assms by (auto simp: sorted_wrt_map sorted_wrt_iff_nth_less intro!: less_ids)


subsection \<open>Per-entity access\<close>

text \<open>
  Claim C7. \<^verbatim>\<open>HasComponent\<close> reads, at run time, the mask that the entity registry holds
  for the id of the handle: whatever mask \<open>B\<close> is registered for that id, and for a component
  type with id below 128, the call leaves the world unchanged and answers the mask-and
  \<open>B & (1 << id) == (1 << id)\<close>, which is true exactly when the bit of the component is set
  in \<open>B\<close>; the shape of the handle plays no part in the answer. For a registered handle,
  whose registered mask is the mask of its shape (a live handle in particular), the answer is
  true exactly when the component belongs to the shape.
\<close>

theorem HasComponent_mask_and:
  assumes "fhm_find (s_entity_archetype_map w) (m_id e) = Some B"
    and "unat c < kMaxComponents"
  shows "HasComponent e c w = (B AND push_bit (unat c) 1 = push_bit (unat c) 1, w)
       \<and> HasComponent e c w = (bit B (unat c), w)
       \<and> (registered w e \<longrightarrow> (fst (HasComponent e c w) \<longleftrightarrow> has_component (derived_type e) c))
       \<and> (live w e \<longrightarrow> (fst (HasComponent e c w) \<longleftrightarrow> c \<in> set (components_type (derived_type e))))"
proof -
  have reg: "map_of (s_entity_archetype_map w) (m_id e) = Some B"
    using assms(1) by (simp add: fhm_find_def)
  have run: "HasComponent e c w = (B AND push_bit (unat c) 1 = push_bit (unat c) 1, w)"
    by (simp add: HasComponent_def fhm_index_present [OF reg] Let_def del: push_bit_of_1)
  have n: "unat c < 128"
    using assms(2) by (simp add: kMaxComponents_def)
  have answer: "fst (HasComponent e c w) \<longleftrightarrow> bit B (unat c)"
    unfolding run fst_conv by (rule has_bit [OF n])
  have shape: "fst (HasComponent e c w) \<longleftrightarrow> has_component (derived_type e) c"
    if "registered w e"
  proof -
    from that assms(1) have "B = ecs_component_mask (components_type (derived_type e))"
      by (simp add: registered_def)
    then have "bit B (unat c) \<longleftrightarrow> has_component (derived_type e) c"
      unfolding has_component_def by (simp add: bit_mask_member [OF assms(2)])
    with answer show ?thesis
      by simp
  qed
  show ?thesis
  proof (intro conjI impI)
    show "HasComponent e c w = (B AND push_bit (unat c) 1 = push_bit (unat c) 1, w)"
      by (rule run)
    show "HasComponent e c w = (bit B (unat c), w)"
      using answer by (simp add: run)
    show "fst (HasComponent e c w) \<longleftrightarrow> has_component (derived_type e) c" if "registered w e"
      using that by (rule shape)
    show "fst (HasComponent e c w) \<longleftrightarrow> c \<in> set (components_type (derived_type e))" if "live w e"
      using shape that by (simp add: live_def has_component_def)
  qed
qed

text \<open>
  Two runs: in \<open>world_AB\<close> id 0 is registered under mask 1; a handle with that id whose type
  has the components 0 and 1 is answered from the registered mask, not from its type; and
  the live handle \<open>entity_B\<close> is answered by its shape.
\<close>

theorem HasComponent_mask_and_witness:
  "fhm_find (s_entity_archetype_map world_AB) (m_id \<lparr>m_id = 0, derived_type = shape_B\<rparr>) = Some 1
   \<and> unat (1 :: component_id_t) < kMaxComponents
   \<and> has_component (derived_type \<lparr>m_id = 0, derived_type = shape_B\<rparr>) 1
   \<and> HasComponent \<lparr>m_id = 0, derived_type = shape_B\<rparr> 1 world_AB = (False, world_AB)
   \<and> live world_AB entity_B
   \<and> fhm_find (s_entity_archetype_map world_AB) (m_id entity_B) = Some 3
   \<and> HasComponent entity_B 1 world_AB = (True, world_AB)"
proof -
  let ?h = "\<lparr>m_id = 0, derived_type = shape_B\<rparr> :: nat Entity"
  have f0: "fhm_find (s_entity_archetype_map world_AB) (m_id ?h) = Some 1"
    by (simp add: fhm_find_def example_defs)
  have f1: "fhm_find (s_entity_archetype_map world_AB) (m_id entity_B) = Some 3"
    by (simp add: fhm_find_def example_defs)
  have k: "unat (1 :: component_id_t) < kMaxComponents"
    by (simp add: kMaxComponents_def)
  have member: "has_component (derived_type ?h) 1"
    by (simp add: has_component_def example_defs)
  from HasComponent_mask_and [OF f0 k]
  have "HasComponent ?h 1 world_AB = (False, world_AB)"
    by simp
  moreover from HasComponent_mask_and [OF f1 k]
  have "HasComponent entity_B 1 world_AB = (True, world_AB)"
    by simp
  ultimately show ?thesis
    using f0 f1 k member live_B by simp
qed

text \<open>
  Claim C9. For a live handle and a component of its shape, \<^verbatim>\<open>Entity::Set\<close> returns and
  changes nothing but the value stored for the handle's id in the column of that component
  in the handle's archetype: the id counter, the archetype index, the entity registry and
  the keys of the archetype store are the same; every other archetype is the same; in the
  handle's archetype the columns are the same ones, every other column is unchanged; in the
  column of the component the keys are the same, every other entity keeps its value, and
  the handle's id now has the value set.
\<close>

theorem Entity_Set_frame:
  assumes "live w e" and "has_component (derived_type e) c"
  shows "\<exists>w' B a a' col col'.
           Entity_Set e c v w = Inr w'
         \<and> s_next_entity_id w' = s_next_entity_id w
         \<and> s_component_trie w' = s_component_trie w
         \<and> s_entity_archetype_map w' = s_entity_archetype_map w
         \<and> fhm_keys (s_component_archetype_map w') = fhm_keys (s_component_archetype_map w)
         \<and> fhm_find (s_entity_archetype_map w) (m_id e) = Some B
         \<and> (\<forall>B'. B' \<noteq> B \<longrightarrow>
               fhm_find (s_component_archetype_map w') B' = fhm_find (s_component_archetype_map w) B')
         \<and> fhm_find (s_component_archetype_map w) B = Some a
         \<and> fhm_find (s_component_archetype_map w') B = Some a'
         \<and> map fst a' = map fst a
         \<and> (\<forall>c'. c' \<noteq> c \<longrightarrow> map_of a' c' = map_of a c')
         \<and> map_of a c = Some col
         \<and> map_of a' c = Some col'
         \<and> fhm_keys col' = fhm_keys col
         \<and> (\<forall>e'. e' \<noteq> m_id e \<longrightarrow> fhm_find col' e' = fhm_find col e')
         \<and> fhm_find col' (m_id e) = Some v"
proof -
  let ?B = "ecs_component_mask (components_type (derived_type e))"
  from assms obtain a col where
    reg: "fhm_find (s_entity_archetype_map w) (m_id e) = Some ?B" and
    arch: "fhm_find (s_component_archetype_map w) ?B = Some a" and
    col: "map_of a c = Some col" and
    row: "m_id e \<in> set (fhm_keys col)"
    by (rule live_row)
  let ?col' = "AList.update (m_id e) v col"
  let ?a' = "AList.update c ?col' a"
  let ?w' = "w\<lparr>s_component_archetype_map := AList.update ?B ?a' (s_component_archetype_map w)\<rparr>"
  have run: "Entity_Set e c v w = Inr ?w'"
    using reg arch col
    by (simp add: Entity_Set_def fhm_find_def fhm_index_present TypeErasedArchetype_Set_def
        Archetype_Set_def fhm_assign_def)
  have "map_of col (m_id e) \<noteq> None"
    using row by (simp add: fhm_keys_def map_of_eq_None_iff)
  then obtain x where x: "map_of col (m_id e) = Some x"
    by blast
  have keys_col: "fhm_keys ?col' = fhm_keys col"
    unfolding fhm_keys_def by (rule update_keys_present [OF x])
  have keys_a: "map fst ?a' = map fst a"
    by (rule update_keys_present [OF col])
  have keys_store: "fhm_keys (s_component_archetype_map ?w') = fhm_keys (s_component_archetype_map w)"
    using arch by (simp add: fhm_keys_def fhm_find_def update_keys_present)
  show ?thesis
    apply (rule exI [of _ ?w'], rule exI [of _ ?B], rule exI [of _ a], rule exI [of _ ?a'],
        rule exI [of _ col], rule exI [of _ ?col'])
    using run reg arch col keys_col keys_a keys_store
    by (simp add: fhm_find_def update_conv')
qed


theorem Entity_Set_frame_witness:
  "live world_AB entity_B \<and> has_component (derived_type entity_B) 1
   \<and> Entity_Set entity_B 1 9 world_AB
       = Inr (world_AB\<lparr>s_component_archetype_map :=
                [(1, [(0, [(0, 0)])]), (3, [(0, [(1, 0)]), (1, [(1, 9)])])]\<rparr>)"
proof -
  have h: "has_component (derived_type entity_B) 1"
    by (simp add: has_component_def example_defs)
  from Entity_Set_frame [OF live_B h, of 9]
  obtain w' where "Entity_Set entity_B 1 9 world_AB = Inr w'"
    by blast
  moreover have "Entity_Set entity_B 1 9 world_AB
       = Inr (world_AB\<lparr>s_component_archetype_map :=
                [(1, [(0, [(0, 0)])]), (3, [(0, [(1, 0)]), (1, [(1, 9)])])]\<rparr>)"
    by (simp add: model_defs example_defs)
  ultimately show ?thesis using live_B h by blast
qed


subsection \<open>Index and store\<close>

lemma fhm_index_key:
  assumes "k \<in> set (fhm_keys m)"
  obtains v where "fhm_index d m k = (m, v)" "(k, v) \<in> set m" "map_of m k = Some v"
proof -
  from assms have "map_of m k \<noteq> None"
    by (simp add: fhm_keys_def map_of_eq_None_iff)
  then obtain v where v: "map_of m k = Some v" by blast
  then have "fhm_index d m k = (m, v)" "(k, v) \<in> set m"
    by (simp_all add: fhm_index_def map_of_SomeD)
  with v show thesis using that by blast
qed

lemma fhm_assign_keys:
  "k \<in> set (fhm_keys m) \<Longrightarrow> fhm_keys (fhm_assign m k v) = fhm_keys m"
  by (simp add: fhm_keys_def fhm_assign_def update_keys)

lemma index_inv_store_update:
  assumes "index_inv w handles" "B \<in> set (fhm_keys (s_component_archetype_map w))"
  shows "index_inv (w\<lparr>s_component_archetype_map := fhm_assign (s_component_archetype_map w) B a\<rparr>) handles"
  using assms by (simp add: index_inv_def fhm_assign_keys)

lemma registered_mask:
  assumes "index_inv w handles" "e \<in> set handles"
  obtains B where
    "fhm_index 0 (s_entity_archetype_map w) (m_id e) = (s_entity_archetype_map w, B)"
    "B \<in> set (fhm_keys (s_component_archetype_map w))"
proof -
  from assms have "m_id e \<in> set (fhm_keys (s_entity_archetype_map w))"
    by (simp add: index_inv_def)
  then obtain B where
    B: "fhm_index 0 (s_entity_archetype_map w) (m_id e) = (s_entity_archetype_map w, B)"
       "(m_id e, B) \<in> set (s_entity_archetype_map w)"
    by (rule fhm_index_key)
  with assms(1) have "B \<in> set (fhm_keys (s_component_archetype_map w))"
    by (auto simp: index_inv_def)
  with B(1) show thesis by (rule that)
qed

lemma index_inv_Get:
  assumes inv: "index_inv w handles" and h: "e \<in> set handles"
    and run: "Entity_Get value_init e c w = Inr (v, w')"
  shows "index_inv w' handles"
proof -
  from inv h obtain B where
    reg: "fhm_index 0 (s_entity_archetype_map w) (m_id e) = (s_entity_archetype_map w, B)" and
    B: "B \<in> set (fhm_keys (s_component_archetype_map w))"
    by (rule registered_mask)
  from B obtain a where
    ix: "fhm_index TypeErasedArchetype_default (s_component_archetype_map w) B
           = (s_component_archetype_map w, a)"
    by (rule fhm_index_key)
  from run obtain a' where
    "w' = w\<lparr>s_component_archetype_map := fhm_assign (s_component_archetype_map w) B a'\<rparr>"
    by (auto simp: Entity_Get_def reg ix split: sum.splits)
  then show ?thesis
    using index_inv_store_update [OF inv B] by simp
qed

lemma index_inv_Set:
  assumes inv: "index_inv w handles" and h: "e \<in> set handles"
    and run: "Entity_Set e c v w = Inr w'"
  shows "index_inv w' handles"
proof -
  from inv h obtain B where
    reg: "fhm_index 0 (s_entity_archetype_map w) (m_id e) = (s_entity_archetype_map w, B)" and
    B: "B \<in> set (fhm_keys (s_component_archetype_map w))"
    by (rule registered_mask)
  from B obtain a where
    ix: "fhm_index TypeErasedArchetype_default (s_component_archetype_map w) B
           = (s_component_archetype_map w, a)"
    by (rule fhm_index_key)
  from run obtain a' where
    "w' = w\<lparr>s_component_archetype_map := fhm_assign (s_component_archetype_map w) B a'\<rparr>"
    by (auto simp: Entity_Set_def reg ix split: sum.splits)
  then show ?thesis
    using index_inv_store_update [OF inv B] by simp
qed

lemma index_inv_Has:
  assumes inv: "index_inv w handles" and h: "e \<in> set handles"
    and run: "HasComponent e c w = (b, w')"
  shows "index_inv w' handles"
proof -
  from inv h obtain B where
    reg: "fhm_index 0 (s_entity_archetype_map w) (m_id e) = (s_entity_archetype_map w, B)"
    by (rule registered_mask)
  from run have "w' = w"
    by (simp add: HasComponent_def reg Let_def)
  with inv show ?thesis by simp
qed

lemma index_inv_dtor:
  assumes inv: "index_inv w handles" and h: "e \<in> set handles"
    and run: "Entity_dtor e w = Inr w'"
  shows "index_inv w' (remove1 e handles)"
proof -
  from inv h obtain B where
    reg: "fhm_index 0 (s_entity_archetype_map w) (m_id e) = (s_entity_archetype_map w, B)" and
    B: "B \<in> set (fhm_keys (s_component_archetype_map w))"
    by (rule registered_mask)
  from B obtain a where
    ix: "fhm_index TypeErasedArchetype_default (s_component_archetype_map w) B
           = (s_component_archetype_map w, a)"
    by (rule fhm_index_key)
  from run obtain a' where
    "w' = w\<lparr>s_component_archetype_map := fhm_assign (s_component_archetype_map w) B a'\<rparr>"
    by (auto simp: Entity_dtor_def Unregister_def reg ix Let_def split: sum.splits)
  then have "index_inv w' handles"
    using index_inv_store_update [OF inv B] by simp
  then show ?thesis
    by (auto simp: index_inv_def dest: notin_set_remove1)
qed


lemma fhm_insert_keys: "set (fhm_keys (fhm_insert m (k, v))) = insert k (set (fhm_keys m))"
proof (cases "map_of m k")
  case None
  then show ?thesis by (simp add: fhm_insert_def fhm_keys_def)
next
  case (Some x)
  then have "k \<in> fst ` set m"
    using map_of_eq_None_iff [of m k] by simp
  with Some show ?thesis by (auto simp: fhm_insert_def fhm_keys_def)
qed

lemma fhm_insert_entries: "set (fhm_insert m kv) \<subseteq> insert kv (set m)"
  by (auto simp: fhm_insert_def split: option.splits)

lemma fhm_find_None_keys: "fhm_find m k = None \<longleftrightarrow> k \<notin> set (fhm_keys m)"
  by (simp add: fhm_find_def fhm_keys_def map_of_eq_None_iff)

lemma trie_Insert_set: "set (trie_Insert t k) = insert k (set t)"
  by (auto simp: trie_Insert_def)

lemma update_append_absent:
  "k \<notin> fst ` set xs \<Longrightarrow> AList.update k v (xs @ [(k, x)]) = xs @ [(k, v)]"
  by (induction xs) auto

lemma fhm_keys_append: "fhm_keys (m @ [(k, v)]) = fhm_keys m @ [k]"
  by (simp add: fhm_keys_def)

lemma fhm_insert_absent: "fhm_find m k = None \<Longrightarrow> fhm_insert m (k, v) = m @ [(k, v)]"
  by (simp add: fhm_insert_def fhm_find_def)

lemma fhm_index_appended:
  "fhm_find m k = None \<Longrightarrow> fhm_index d (m @ [(k, v)]) k = (m @ [(k, v)], v)"
  by (simp add: fhm_index_def fhm_find_def map_add_def)

lemma fhm_assign_appended:
  "fhm_find m k = None \<Longrightarrow> fhm_assign (m @ [(k, v)]) k v' = m @ [(k, v')]"
  by (simp add: fhm_assign_def fhm_find_def map_of_eq_None_iff update_append_absent)

lemma fhm_index_found: "fhm_find m k = Some v \<Longrightarrow> fhm_index d m k = (m, v)"
  by (simp add: fhm_index_def fhm_find_def)

lemma Register_None:
  assumes "fhm_find (s_component_archetype_map w) B = None"
  shows "Register value_init ent B w =
     (case add_row value_init (derived_type ent) (components_type (derived_type ent))
             (Archetype_new (components_type (derived_type ent))) (m_id ent) of
        Inl err \<Rightarrow> Inl err
      | Inr a' \<Rightarrow>
          Inr (w\<lparr>s_component_trie := trie_Insert (s_component_trie w) B,
                 s_component_archetype_map := s_component_archetype_map w @ [(B, a')],
                 s_entity_archetype_map := fhm_insert (s_entity_archetype_map w) (m_id ent, B)\<rparr>))"
  unfolding Register_def Let_def
  by (simp add: assms fhm_insert_absent [OF assms] fhm_index_appended [OF assms]
      fhm_assign_appended [OF assms] split: sum.splits)

lemma Register_Some:
  assumes "fhm_find (s_component_archetype_map w) B = Some a"
  shows "Register value_init ent B w =
     (case add_row value_init (derived_type ent) (components_type (derived_type ent)) a (m_id ent) of
        Inl err \<Rightarrow> Inl err
      | Inr a' \<Rightarrow>
          Inr (w\<lparr>s_component_archetype_map := fhm_assign (s_component_archetype_map w) B a',
                 s_entity_archetype_map := fhm_insert (s_entity_archetype_map w) (m_id ent, B)\<rparr>))"
  unfolding Register_def Let_def
  by (simp add: assms fhm_index_found [OF assms] split: sum.splits)

lemma Entity_ctor_unfold:
  "Entity_ctor value_init derived w =
     (case Register value_init \<lparr>m_id = s_next_entity_id w, derived_type = derived\<rparr>
             (ecs_component_mask (components_type derived))
             (w\<lparr>s_next_entity_id := s_next_entity_id w + 1\<rparr>) of
        Inl err \<Rightarrow> Inl err
      | Inr w' \<Rightarrow> Inr (\<lparr>m_id = s_next_entity_id w, derived_type = derived\<rparr>, w'))"
  by (simp add: Entity_ctor_def AllocateID_def Let_def)

lemma index_inv_ctor:
  assumes inv: "index_inv w handles"
    and run: "Entity_ctor value_init derived w = Inr (e, w')"
  shows "index_inv w' (e # handles)"
proof -
  let ?B = "ecs_component_mask (components_type derived)"
  let ?w0 = "w\<lparr>s_next_entity_id := s_next_entity_id w + 1\<rparr>"
  let ?ent = "\<lparr>m_id = s_next_entity_id w, derived_type = derived\<rparr>"
  from run have e: "e = ?ent" and reg: "Register value_init ?ent ?B ?w0 = Inr w'"
    by (auto simp: Entity_ctor_unfold split: sum.splits)
  show ?thesis
  proof (cases "fhm_find (s_component_archetype_map ?w0) ?B")
    case None
    from reg [unfolded Register_None [OF None]] obtain a' where
      "w' = ?w0\<lparr>s_component_trie := trie_Insert (s_component_trie ?w0) ?B,
                 s_component_archetype_map := s_component_archetype_map ?w0 @ [(?B, a')],
                 s_entity_archetype_map := fhm_insert (s_entity_archetype_map ?w0) (m_id ?ent, ?B)\<rparr>"
      by (auto split: sum.splits)
    then show ?thesis
      using inv fhm_insert_entries [of "s_entity_archetype_map w" "(s_next_entity_id w, ?B)"]
      by (auto simp: e index_inv_def fhm_insert_keys trie_Insert_set fhm_keys_append)
  next
    case (Some a)
    then have B: "?B \<in> set (fhm_keys (s_component_archetype_map w))"
      using fhm_find_None_keys [of "s_component_archetype_map w" ?B] by simp
    from reg [unfolded Register_Some [OF Some]] obtain a' where
      "w' = ?w0\<lparr>s_component_archetype_map := fhm_assign (s_component_archetype_map ?w0) ?B a',
                 s_entity_archetype_map := fhm_insert (s_entity_archetype_map ?w0) (m_id ?ent, ?B)\<rparr>"
      by (auto split: sum.splits)
    then show ?thesis
      using inv B fhm_insert_entries [of "s_entity_archetype_map w" "(s_next_entity_id w, ?B)"]
      by (auto simp: e index_inv_def fhm_insert_keys fhm_assign_keys)
  qed
qed

lemma reachable_index_inv: "reachable value_init w handles \<Longrightarrow> index_inv w handles"
proof (induction rule: reachable.induct)
  case start
  show ?case by (simp add: index_inv_def World_init_def fhm_keys_def)
next
  case (construct w handles derived e w')
  then show ?case by (blast intro: index_inv_ctor)
next
  case (get w handles e c v w')
  then show ?case by (blast intro: index_inv_Get)
next
  case (set w handles e c v w')
  then show ?case by (blast intro: index_inv_Set)
next
  case (has w handles e c b w')
  then show ?case by (blast intro: index_inv_Has)
next
  case (move w handles e)
  then show ?case by (simp add: index_inv_def)
next
  case (destroy w handles e w')
  then show ?case by (blast intro: index_inv_dtor)
qed


lemma reachable_AB: "reachable value_init0 world_AB [entity_B, entity_A]"
proof -
  have okA: "entity_type_ok shape_A" and okB: "entity_type_ok shape_B"
    by (simp_all add: entity_type_ok_def component_traits_ok_def kMaxComponents_def example_defs)
  have "reachable value_init0 world_A [entity_A]"
    using reachable.start okA ctor_A by (rule reachable.construct)
  then show ?thesis
    using okB ctor_B by (rule reachable.construct)
qed

text \<open>
  Claim C3. In every state reached from the empty world by entity constructions, calls of
  \<^verbatim>\<open>Get\<close>, \<^verbatim>\<open>Set\<close> and \<^verbatim>\<open>HasComponent\<close> on held handles, moves and destructions of
  held handles, the masks stored in the archetype index are exactly the keys of the
  archetype store.
\<close>

theorem index_complete:
  assumes "reachable value_init w handles"
  shows "set (s_component_trie w) = set (fhm_keys (s_component_archetype_map w))"
  using reachable_index_inv [OF assms] by (simp add: index_inv_def)


theorem index_complete_witness:
  "reachable value_init0 world_AB [entity_B, entity_A]
   \<and> set (s_component_trie world_AB) = set (fhm_keys (s_component_archetype_map world_AB))"
  using index_complete [OF reachable_AB] reachable_AB by simp


subsection \<open>Rows\<close>

lemma set_cell_result:
  assumes "map_of a c = Some col"
  shows "set_cell value_init derived c a eid
           = Inr (AList.update c (fhm_assign col eid (default_of value_init derived c)) a)"
  using assms
  by (simp add: set_cell_def TypeErasedArchetype_Set_def Archetype_Set_def default_of_def
      split: option.splits)

lemma set_cell_error:
  assumes "map_of a c = None"
  shows "set_cell value_init derived c a eid = Inl NullDispatch"
  using assms
  by (simp add: set_cell_def TypeErasedArchetype_Set_def Archetype_Set_def split: option.splits)

lemma fhm_assign_idem: "fhm_assign (fhm_assign col k v) k v = fhm_assign col k v"
  by (simp add: fhm_assign_def)

lemma add_row_result:
  assumes "\<forall>c \<in> set cs. map_of a c \<noteq> None"
  shows "\<exists>a'. add_row value_init derived cs a eid = Inr a'
           \<and> map fst a' = map fst a
           \<and> (\<forall>c. map_of a' c =
                 (if c \<in> set cs
                  then map_option (\<lambda>col. fhm_assign col eid (default_of value_init derived c)) (map_of a c)
                  else map_of a c))"
  using assms
proof (induction cs arbitrary: a)
  case Nil
  show ?case by simp
next
  case (Cons c cs)
  then obtain col where col: "map_of a c = Some col"
    by auto
  let ?a1 = "AList.update c (fhm_assign col eid (default_of value_init derived c)) a"
  have step: "set_cell value_init derived c a eid = Inr ?a1"
    by (rule set_cell_result [OF col])
  have "\<forall>c' \<in> set cs. map_of ?a1 c' \<noteq> None"
    using Cons.prems by (simp add: update_conv')
  from Cons.IH [OF this] obtain a' where
    run: "add_row value_init derived cs ?a1 eid = Inr a'" and
    keys: "map fst a' = map fst ?a1" and
    cells: "\<forall>c'. map_of a' c' =
              (if c' \<in> set cs
               then map_option (\<lambda>col. fhm_assign col eid (default_of value_init derived c')) (map_of ?a1 c')
               else map_of ?a1 c')"
    by blast
  have "add_row value_init derived (c # cs) a eid = Inr a'"
    by (simp add: step run)
  moreover have "map fst a' = map fst a"
    using keys col by (simp add: update_keys_present)
  moreover have "map_of a' c' =
      (if c' \<in> set (c # cs)
       then map_option (\<lambda>col. fhm_assign col eid (default_of value_init derived c')) (map_of a c')
       else map_of a c')" for c'
    using cells [rule_format, of c'] col
    by (auto simp: update_conv' fhm_assign_idem)
  ultimately show ?case by blast
qed

lemma Clear_result:
  assumes "map_of a c = Some col"
  shows "TypeErasedArchetype_Clear a c eid = Inr (AList.update c (fhm_erase col eid) a)"
  using assms by (simp add: TypeErasedArchetype_Clear_def Archetype_Clear_def)

lemma fhm_erase_idem: "fhm_erase (fhm_erase col k) k = fhm_erase col k"
  by (simp add: fhm_erase_def delete_idem)

lemma drop_row_result:
  assumes "\<forall>c \<in> set cs. map_of a c \<noteq> None"
  shows "\<exists>a'. drop_row cs a eid = Inr a'
           \<and> map fst a' = map fst a
           \<and> (\<forall>c. map_of a' c =
                 (if c \<in> set cs then map_option (\<lambda>col. fhm_erase col eid) (map_of a c)
                  else map_of a c))"
  using assms
proof (induction cs arbitrary: a)
  case Nil
  show ?case by simp
next
  case (Cons c cs)
  then obtain col where col: "map_of a c = Some col"
    by auto
  let ?a1 = "AList.update c (fhm_erase col eid) a"
  have step: "TypeErasedArchetype_Clear a c eid = Inr ?a1"
    by (rule Clear_result [OF col])
  have "\<forall>c' \<in> set cs. map_of ?a1 c' \<noteq> None"
    using Cons.prems by (simp add: update_conv')
  from Cons.IH [OF this] obtain a' where
    run: "drop_row cs ?a1 eid = Inr a'" and
    keys: "map fst a' = map fst ?a1" and
    cells: "\<forall>c'. map_of a' c' =
              (if c' \<in> set cs then map_option (\<lambda>col. fhm_erase col eid) (map_of ?a1 c')
               else map_of ?a1 c')"
    by blast
  have "drop_row (c # cs) a eid = Inr a'"
    by (simp add: step run)
  moreover have "map fst a' = map fst a"
    using keys col by (simp add: update_keys_present)
  moreover have "map_of a' c' =
      (if c' \<in> set (c # cs) then map_option (\<lambda>col. fhm_erase col eid) (map_of a c')
       else map_of a c')" for c'
    using cells [rule_format, of c'] col
    by (auto simp: update_conv' fhm_erase_idem)
  ultimately show ?case by blast
qed

lemma Entity_Get_found:
  assumes "fhm_find (s_entity_archetype_map w) (m_id e) = Some B"
    and "fhm_find (s_component_archetype_map w) B = Some a"
    and "map_of a c = Some col"
    and "map_of col (m_id e) = Some v"
  shows "Entity_Get value_init e c w = Inr (v, w)"
proof -
  have "TypeErasedArchetype_Get value_init a c (m_id e) = Inr (a, v)"
    using assms(3,4)
    by (simp add: TypeErasedArchetype_Get_def Archetype_Get_def fhm_index_def update_triv)
  moreover have "fhm_assign (s_component_archetype_map w) B a = s_component_archetype_map w"
    using assms(2) by (simp add: fhm_assign_def fhm_find_def update_triv)
  ultimately show ?thesis
    using assms(1,2) by (simp add: Entity_Get_def fhm_index_found)
qed


lemma fhm_erase_keys: "k \<notin> set (fhm_keys (fhm_erase col k))"
  using delete_notin_dom [of k col] by (simp add: fhm_erase_def fhm_keys_def)


text \<open>
  Claim C2 says that destroying a handle erases the entity's cell from every column of its
  archetype table, removes the entity id from the entity registry, and leaves the archetype
  table in the store. The code does the first and the third and not the second:
  \<^verbatim>\<open>World::Unregister\<close> only reads the registry. For a live handle the destructor returns;
  the registry is unchanged and still maps the handle's id to the mask of its shape; the id
  counter, the index and the keys of the store are unchanged; the archetype stays in the
  store with the same columns; the column of every component of the shape has lost the
  entry of the handle's id, and the other columns are unchanged.
\<close>

theorem Unregister_effect:
  assumes "live w e"
  shows "\<exists>w' a a'.
           Entity_dtor e w = Inr w'
         \<and> s_entity_archetype_map w' = s_entity_archetype_map w
         \<and> registered w' e
         \<and> s_next_entity_id w' = s_next_entity_id w
         \<and> s_component_trie w' = s_component_trie w
         \<and> fhm_keys (s_component_archetype_map w') = fhm_keys (s_component_archetype_map w)
         \<and> fhm_find (s_component_archetype_map w)
              (ecs_component_mask (components_type (derived_type e))) = Some a
         \<and> fhm_find (s_component_archetype_map w')
              (ecs_component_mask (components_type (derived_type e))) = Some a'
         \<and> map fst a' = map fst a
         \<and> (\<forall>c \<in> set (components_type (derived_type e)).
               \<exists>col. map_of a c = Some col \<and> map_of a' c = Some (fhm_erase col (m_id e))
                     \<and> m_id e \<notin> set (fhm_keys (fhm_erase col (m_id e))))
         \<and> (\<forall>c. c \<notin> set (components_type (derived_type e)) \<longrightarrow> map_of a' c = map_of a c)"
proof -
  let ?B = "ecs_component_mask (components_type (derived_type e))"
  let ?cs = "components_type (derived_type e)"
  from assms have reg: "fhm_find (s_entity_archetype_map w) (m_id e) = Some ?B"
    by (simp add: live_def registered_def)
  from assms obtain a where
    arch: "fhm_find (s_component_archetype_map w) ?B = Some a" and
    cols: "\<forall>c \<in> set ?cs. map_of a c \<noteq> None"
    by (auto simp: live_def has_row_def list_all_iff split: option.splits)
  from drop_row_result [OF cols, of "m_id e"] obtain a' where
    run: "drop_row ?cs a (m_id e) = Inr a'" and
    keys: "map fst a' = map fst a" and
    cells: "\<forall>c. map_of a' c =
              (if c \<in> set ?cs then map_option (\<lambda>col. fhm_erase col (m_id e)) (map_of a c)
               else map_of a c)"
    by blast
  let ?w' = "w\<lparr>s_component_archetype_map := fhm_assign (s_component_archetype_map w) ?B a'\<rparr>"
  have dtor: "Entity_dtor e w = Inr ?w'"
    by (simp add: Entity_dtor_def Unregister_def Let_def fhm_index_found [OF reg]
        fhm_index_found [OF arch] run)
  have B: "?B \<in> set (fhm_keys (s_component_archetype_map w))"
    using arch fhm_find_None_keys [of "s_component_archetype_map w" ?B] by simp
  have keys_store: "fhm_keys (s_component_archetype_map ?w') = fhm_keys (s_component_archetype_map w)"
    using B by (simp add: fhm_assign_keys)
  have arch': "fhm_find (s_component_archetype_map ?w') ?B = Some a'"
    by (simp add: fhm_find_def fhm_assign_def update_conv')
  have erased: "\<exists>col. map_of a c = Some col \<and> map_of a' c = Some (fhm_erase col (m_id e))
                     \<and> m_id e \<notin> set (fhm_keys (fhm_erase col (m_id e)))"
    if "c \<in> set ?cs" for c
    using that cols cells [rule_format, of c] by (auto simp: fhm_erase_keys)
  have others: "map_of a' c = map_of a c" if "c \<notin> set ?cs" for c
    using that cells by simp
  show ?thesis
    apply (rule exI [of _ ?w'], rule exI [of _ a], rule exI [of _ a'])
    using dtor reg arch arch' keys keys_store erased others
    by (simp add: registered_def)
qed


theorem Unregister_effect_witness:
  "live world_AB entity_B
   \<and> Entity_dtor entity_B world_AB
       = Inr (world_AB\<lparr>s_component_archetype_map :=
                [(1, [(0, [(0, 0)])]), (3, [(0, []), (1, [])])]\<rparr>)
   \<and> fhm_find (s_entity_archetype_map world_AB) (m_id entity_B) = Some 3"
proof -
  from Unregister_effect [OF live_B] obtain w' where
    "Entity_dtor entity_B world_AB = Inr w'"
    "s_entity_archetype_map w' = s_entity_archetype_map world_AB"
    by blast
  moreover have "Entity_dtor entity_B world_AB
       = Inr (world_AB\<lparr>s_component_archetype_map :=
                [(1, [(0, [(0, 0)])]), (3, [(0, []), (1, [])])]\<rparr>)"
    by (simp add: model_defs example_defs Let_def)
  moreover have "fhm_find (s_entity_archetype_map world_AB) (m_id entity_B) = Some 3"
    by (simp add: model_defs example_defs)
  ultimately show ?thesis using live_B by blast
qed

subsection \<open>Construction\<close>

lemma world_inv_fresh:
  assumes "world_inv w"
  shows "fhm_find (s_entity_archetype_map w) (s_next_entity_id w) = None"
proof -
  have "s_next_entity_id w \<notin> set (fhm_keys (s_entity_archetype_map w))"
    using assms by (fastforce simp: world_inv_def fhm_keys_def)
  then show ?thesis
    by (simp add: fhm_find_None_keys)
qed

lemma world_inv_columns:
  assumes inv: "world_inv w" and ok: "component_traits_ok cs"
    and arch: "fhm_find (s_component_archetype_map w) (ecs_component_mask cs) = Some a"
  shows "set (map fst a) = set cs"
proof -
  from arch have "(ecs_component_mask cs, a) \<in> set (s_component_archetype_map w)"
    by (simp add: fhm_find_def map_of_SomeD)
  with inv have m: "ecs_component_mask cs = ecs_component_mask (map fst a)"
    and ok': "component_traits_ok (map fst a)"
    by (auto simp: world_inv_def archetype_inv_def)
  have "c \<in> set (map fst a) \<longleftrightarrow> c \<in> set cs" for c
  proof (cases "unat c < kMaxComponents")
    case True
    from bit_mask_member [OF True, of cs] bit_mask_member [OF True, of "map fst a"] m
    show ?thesis by simp
  next
    case False
    with ok ok' show ?thesis
      by (auto simp: component_traits_ok_def list_all_iff)
  qed
  then show ?thesis by blast
qed


lemma map_of_Archetype_new:
  "map_of (Archetype_new cs) c = (if c \<in> set cs then Some [] else None)"
  unfolding Archetype_new_def by (induction cs) auto

lemma fhm_find_assign: "fhm_find (fhm_assign m k v) k' = (if k' = k then Some v else fhm_find m k')"
  by (simp add: fhm_find_def fhm_assign_def update_conv')

lemma fhm_find_append_absent:
  "fhm_find m k = None \<Longrightarrow> fhm_find (m @ [(k, v)]) k' = (if k' = k then Some v else fhm_find m k')"
  by (auto simp: fhm_find_def map_add_def split: option.splits)

lemma fhm_assign_key: "k \<in> set (fhm_keys (fhm_assign col k v))"
  using dom_update [of k v col] by (simp add: fhm_keys_def fhm_assign_def)

lemma Entity_ctor_post:
  fixes w :: "'v World" and derived :: "'v entity_type"
  defines "B \<equiv> ecs_component_mask (components_type derived)"
  defines "eid \<equiv> s_next_entity_id w"
  defines "a0 \<equiv> (case fhm_find (s_component_archetype_map w) B of
                    None \<Rightarrow> Archetype_new (components_type derived) | Some a \<Rightarrow> a)"
  assumes cols: "\<forall>c \<in> set (components_type derived). map_of a0 c \<noteq> None"
  shows "\<exists>w' a'.
           Entity_ctor value_init derived w = Inr (\<lparr>m_id = eid, derived_type = derived\<rparr>, w')
         \<and> s_next_entity_id w' = eid + 1
         \<and> s_entity_archetype_map w' = fhm_insert (s_entity_archetype_map w) (eid, B)
         \<and> s_component_trie w' =
             (case fhm_find (s_component_archetype_map w) B of
                None \<Rightarrow> trie_Insert (s_component_trie w) B | Some a \<Rightarrow> s_component_trie w)
         \<and> s_component_archetype_map w' =
             (case fhm_find (s_component_archetype_map w) B of
                None \<Rightarrow> s_component_archetype_map w @ [(B, a')]
              | Some a \<Rightarrow> fhm_assign (s_component_archetype_map w) B a')
         \<and> fhm_find (s_component_archetype_map w') B = Some a'
         \<and> map fst a' = map fst a0
         \<and> (\<forall>c. map_of a' c =
               (if c \<in> set (components_type derived)
                then map_option (\<lambda>col. fhm_assign col eid (default_of value_init derived c)) (map_of a0 c)
                else map_of a0 c))"
proof -
  let ?w0 = "w\<lparr>s_next_entity_id := s_next_entity_id w + 1\<rparr>"
  let ?ent = "\<lparr>m_id = eid, derived_type = derived\<rparr>"
  from add_row_result [OF cols, of value_init derived eid] obtain a' where
    run: "add_row value_init derived (components_type derived) a0 eid = Inr a'" and
    keys: "map fst a' = map fst a0" and
    cells: "\<forall>c. map_of a' c =
               (if c \<in> set (components_type derived)
                then map_option (\<lambda>col. fhm_assign col eid (default_of value_init derived c)) (map_of a0 c)
                else map_of a0 c)"
    by blast
  show ?thesis
  proof (cases "fhm_find (s_component_archetype_map w) B")
    case None
    then have none0: "fhm_find (s_component_archetype_map ?w0) B = None"
      by simp
    have a0: "a0 = Archetype_new (components_type derived)"
      using None by (simp add: a0_def)
    have "Register value_init ?ent B ?w0 =
        Inr (?w0\<lparr>s_component_trie := trie_Insert (s_component_trie ?w0) B,
                 s_component_archetype_map := s_component_archetype_map ?w0 @ [(B, a')],
                 s_entity_archetype_map := fhm_insert (s_entity_archetype_map ?w0) (m_id ?ent, B)\<rparr>)"
      unfolding Register_None [OF none0] using run by (simp add: a0)
    then have "Entity_ctor value_init derived w =
        Inr (?ent, ?w0\<lparr>s_component_trie := trie_Insert (s_component_trie ?w0) B,
                 s_component_archetype_map := s_component_archetype_map ?w0 @ [(B, a')],
                 s_entity_archetype_map := fhm_insert (s_entity_archetype_map ?w0) (m_id ?ent, B)\<rparr>)"
      by (simp add: Entity_ctor_unfold B_def eid_def)
    then show ?thesis
      using None keys cells by (simp add: eid_def fhm_find_append_absent)
  next
    case (Some a)
    then have some0: "fhm_find (s_component_archetype_map ?w0) B = Some a"
      by simp
    have a0: "a0 = a"
      using Some by (simp add: a0_def)
    have "Register value_init ?ent B ?w0 =
        Inr (?w0\<lparr>s_component_archetype_map := fhm_assign (s_component_archetype_map ?w0) B a',
                 s_entity_archetype_map := fhm_insert (s_entity_archetype_map ?w0) (m_id ?ent, B)\<rparr>)"
      unfolding Register_Some [OF some0] using run by (simp add: a0)
    then have "Entity_ctor value_init derived w =
        Inr (?ent, ?w0\<lparr>s_component_archetype_map := fhm_assign (s_component_archetype_map ?w0) B a',
                 s_entity_archetype_map := fhm_insert (s_entity_archetype_map ?w0) (m_id ?ent, B)\<rparr>)"
      by (simp add: Entity_ctor_unfold B_def eid_def)
    then show ?thesis
      using Some keys cells by (simp add: eid_def fhm_find_assign)
  qed
qed

lemma world_inv_ctor_columns:
  assumes inv: "world_inv w" and ok: "entity_type_ok derived"
  shows "\<forall>c \<in> set (components_type derived).
           map_of (case fhm_find (s_component_archetype_map w)
                         (ecs_component_mask (components_type derived)) of
                     None \<Rightarrow> Archetype_new (components_type derived) | Some a \<Rightarrow> a) c \<noteq> None"
proof (cases "fhm_find (s_component_archetype_map w) (ecs_component_mask (components_type derived))")
  case None
  then show ?thesis by (simp add: map_of_Archetype_new)
next
  case (Some a)
  from ok have "component_traits_ok (components_type derived)"
    by (simp add: entity_type_ok_def)
  from world_inv_columns [OF inv this Some] have "set (components_type derived) = fst ` set a"
    by simp
  then show ?thesis
    using Some by (simp add: map_of_eq_None_iff)
qed


lemma world_inv_A: "world_inv world_A"
  by (simp add: world_inv_def archetype_inv_def archetype_entities_def component_traits_ok_def
      kMaxComponents_def model_defs example_defs)

text \<open>
  Claim C5. In a consistent world, constructing an entity of a well-formed type returns a
  live handle, and \<^verbatim>\<open>Get\<close> for a component of the shape, called right after the
  construction, returns \<^verbatim>\<open>Default<Derived, Component>::value\<close> where that default exists and
  the value-initialised component otherwise, and leaves the world as it is.
\<close>

theorem Get_after_construction:
  assumes inv: "world_inv w" and ok: "entity_type_ok derived"
    and c: "has_component derived c"
  shows "\<exists>e w'. Entity_ctor value_init derived w = Inr (e, w')
           \<and> derived_type e = derived
           \<and> live w' e
           \<and> Entity_Get value_init e c w'
               = Inr ((case Default derived c of Some d \<Rightarrow> d | None \<Rightarrow> value_init c), w')"
proof -
  let ?B = "ecs_component_mask (components_type derived)"
  let ?eid = "s_next_entity_id w"
  let ?e = "\<lparr>m_id = ?eid, derived_type = derived\<rparr>"
  let ?a0 = "case fhm_find (s_component_archetype_map w) ?B of
               None \<Rightarrow> Archetype_new (components_type derived) | Some a \<Rightarrow> a"
  have cols: "\<forall>c \<in> set (components_type derived). map_of ?a0 c \<noteq> None"
    by (rule world_inv_ctor_columns [OF inv ok])
  from Entity_ctor_post [OF cols, of value_init] obtain w' a' where
    run: "Entity_ctor value_init derived w = Inr (?e, w')" and
    reg: "s_entity_archetype_map w' = fhm_insert (s_entity_archetype_map w) (?eid, ?B)" and
    arch: "fhm_find (s_component_archetype_map w') ?B = Some a'" and
    cells: "\<forall>c. map_of a' c =
               (if c \<in> set (components_type derived)
                then map_option (\<lambda>col. fhm_assign col ?eid (default_of value_init derived c)) (map_of ?a0 c)
                else map_of ?a0 c)"
    by blast
  have fresh: "fhm_find (s_entity_archetype_map w) ?eid = None"
    by (rule world_inv_fresh [OF inv])
  have reg': "fhm_find (s_entity_archetype_map w') ?eid = Some ?B"
    by (simp add: reg fhm_insert_absent [OF fresh] fhm_find_append_absent [OF fresh])
  have cell: "\<exists>col. map_of a' c' = Some (fhm_assign col ?eid (default_of value_init derived c'))"
    if "c' \<in> set (components_type derived)" for c'
  proof -
    from that cols obtain col0 where "map_of ?a0 c' = Some col0"
      by blast
    with that cells [rule_format, of c']
    have "map_of a' c' = Some (fhm_assign col0 ?eid (default_of value_init derived c'))"
      by simp
    then show ?thesis by (rule exI)
  qed
  have "\<exists>col. map_of a' c' = Some col \<and> ?eid \<in> set (fhm_keys col)"
    if "c' \<in> set (components_type derived)" for c'
    using cell [OF that] by (auto simp: fhm_assign_key)
  then have live: "live w' ?e"
    unfolding live_def registered_def has_row_def
    using reg' arch by (fastforce simp: list_all_iff split: option.splits)
  from c cell obtain col where
    col: "map_of a' c = Some (fhm_assign col ?eid (default_of value_init derived c))"
    by (auto simp: has_component_def)
  have "map_of (fhm_assign col ?eid (default_of value_init derived c)) ?eid
          = Some (default_of value_init derived c)"
    by (simp add: fhm_assign_def update_conv')
  from Entity_Get_found [of w' ?e, simplified, OF reg' arch col this]
  have "Entity_Get value_init ?e c w' = Inr (default_of value_init derived c, w')" .
  with run live show ?thesis
    by (auto simp: default_of_def)
qed


theorem Get_after_construction_witness:
  "world_inv world_A \<and> entity_type_ok shape_B \<and> has_component shape_B 1
   \<and> has_component shape_B 0
   \<and> Entity_ctor value_init0 shape_B world_A = Inr (entity_B, world_AB)
   \<and> Entity_Get value_init0 entity_B 1 world_AB = Inr (7, world_AB)
   \<and> Entity_Get value_init0 entity_B 0 world_AB = Inr (0, world_AB)"
proof -
  have ok: "entity_type_ok shape_B"
    by (simp add: entity_type_ok_def component_traits_ok_def kMaxComponents_def example_defs)
  have c1: "has_component shape_B 1" and c0: "has_component shape_B 0"
    by (simp_all add: has_component_def example_defs)
  from Get_after_construction [OF world_inv_A ok c1, of value_init0]
  have "Entity_Get value_init0 entity_B 1 world_AB = Inr (7, world_AB)"
    by (simp add: ctor_B) (simp add: example_defs)
  moreover from Get_after_construction [OF world_inv_A ok c0, of value_init0]
  have "Entity_Get value_init0 entity_B 0 world_AB = Inr (0, world_AB)"
    by (simp add: ctor_B) (simp add: example_defs)
  ultimately show ?thesis
    using world_inv_A ok c1 c0 ctor_B by blast
qed


subsection \<open>Iterating a view\<close>

text \<open>The end iterator of a view is finished, and an iterator differs from it exactly while
  it is not finished: the loop test of \<open>view_loop\<close>.\<close>

lemma Iterator_eq_end:
  assumes "m_stage e = eFinished"
  shows "Iterator_eq it e \<longleftrightarrow> m_stage it = eFinished"
  using assms by (auto simp: Iterator_eq_def)

lemma components_view_end_finished:
  assumes "Q \<noteq> []"
  shows "\<exists>e. components_view_end Q w = Inr (w, e) \<and> m_stage e = eFinished"
  unfolding components_view_end_def Iterator_ctor_def ColumnSetIterator_well_formed_def
  by (subst next_row.simps) (simp add: assms)

lemma begin_columns:
  assumes "\<forall>c \<in> set Q. map_of a c \<noteq> None"
  shows "TypeErasedArchetype_begin a Q = Inr (query_columns a Q)"
  using assms by (induction Q) (auto simp: query_columns_def Archetype_begin_def)

lemma end_columns:
  assumes "\<forall>c \<in> set Q. map_of a c \<noteq> None"
  shows "TypeErasedArchetype_end a Q = Inr (map (\<lambda>c. []) Q)"
  using assms by (induction Q) (auto simp: Archetype_end_def)

lemma eq_sentinel:
  "ColumnSetIterator_eq cols (map (\<lambda>c. []) cols) \<longleftrightarrow> (\<forall>col \<in> set cols. col = [])"
  by (induction cols) (auto simp: ColumnSetIterator_eq_def)

lemma eq_sentinel':
  "length s = length cols \<Longrightarrow> ColumnSetIterator_eq cols (map (\<lambda>c. []) s) \<longleftrightarrow> (\<forall>col \<in> set cols. col = [])"
  by (induction cols s rule: list_induct2') (auto simp: ColumnSetIterator_eq_def)

lemma lockstep_rows_empty:
  assumes "cols = [] \<or> (\<exists>col \<in> set cols. col = [])"
  shows "lockstep_rows cols = []"
  using assms
  by (subst lockstep_rows.simps) (auto simp: ColumnSetIterator_deref_def list_ex_iff split: list.splits)

lemma deref_ok:
  assumes "cols \<noteq> []" "\<forall>col \<in> set cols. col \<noteq> []"
  shows "ColumnSetIterator_deref cols = Inr (fst (hd (hd cols)), map (\<lambda>it. snd (hd it)) cols)"
  using assms by (auto simp: ColumnSetIterator_deref_def list_ex_iff split: list.splits)

lemma inc_ok:
  assumes "\<forall>col \<in> set cols. col \<noteq> []"
  shows "ColumnSetIterator_inc cols = Inr (map tl cols)"
  using assms by (auto simp: ColumnSetIterator_inc_def list_ex_iff)


lemma lockstep_rows_step:
  assumes "cols \<noteq> []" "\<forall>col \<in> set cols. col \<noteq> []"
  shows "lockstep_rows cols
           = (fst (hd (hd cols)), map (\<lambda>it. snd (hd it)) cols) # lockstep_rows (map tl cols)"
  by (subst lockstep_rows.simps) (simp add: deref_ok [OF assms])

lemma view_loop_rows:
  fixes ctx :: "'v GeneratorContext"
  assumes "m_stage ctx = eNextRow" and "m_curr_row ctx = cols"
    and "m_sentinel_row ctx = map (\<lambda>c. []) cols" and "cols \<noteq> []"
    and "\<forall>col \<in> set cols. length col = n" and "0 < n"
  shows "view_loop Q w ctx =
     (case next_row Q w (ctx\<lparr>m_curr_row := map (\<lambda>c. []) cols, m_stage := eNextArchetype\<rparr>) of
        Inl e \<Rightarrow> Inl e
      | Inr (w', ctx') \<Rightarrow>
          (case view_loop Q w' ctx' of
             Inl e \<Rightarrow> Inl e
           | Inr (w'', rows) \<Rightarrow> Inr (w'', lockstep_rows cols @ rows)))"
  using assms
proof (induction n arbitrary: cols ctx)
  case 0
  then show ?case by simp
next
  case (Suc m)
  let ?r = "map tl cols"
  let ?row = "(fst (hd (hd cols)), map (\<lambda>it. snd (hd it)) cols)"
  let ?end = "ctx\<lparr>m_curr_row := map (\<lambda>c. []) cols, m_stage := eNextArchetype\<rparr>"
  have nonempty: "\<forall>col \<in> set cols. col \<noteq> []"
    using Suc.prems(5) by auto
  have deref: "Iterator_deref ctx = Inr ?row"
    using Suc.prems(2,4) nonempty by (simp add: Iterator_deref_def deref_ok)
  have inc: "ColumnSetIterator_inc (m_curr_row ctx) = Inr ?r"
    using Suc.prems(2) nonempty by (simp add: inc_ok)
  have len_tl: "\<forall>col \<in> set cols. length (tl col) = m"
    using Suc.prems(5) by simp
  then have len_r: "\<forall>col \<in> set ?r. length col = m"
    by simp
  have eq: "ColumnSetIterator_eq ?r (map (\<lambda>c. []) cols) \<longleftrightarrow> m = 0"
  proof -
    have "ColumnSetIterator_eq ?r (map (\<lambda>c. []) cols) \<longleftrightarrow> (\<forall>col \<in> set ?r. col = [])"
      by (rule eq_sentinel') simp
    also have "\<dots> \<longleftrightarrow> (\<forall>col \<in> set cols. tl col = [])"
      by simp
    also have "\<dots> \<longleftrightarrow> (\<forall>col \<in> set cols. m = 0)"
      using len_tl by (metis length_0_conv)
    also have "\<dots> \<longleftrightarrow> m = 0"
      using Suc.prems(4) by (cases cols) auto
    finally show ?thesis .
  qed
  have rows: "lockstep_rows cols = ?row # lockstep_rows ?r"
    by (rule lockstep_rows_step [OF Suc.prems(4) nonempty])
  have loop: "view_loop Q w ctx =
      (case next_row Q w ctx of
         Inl e \<Rightarrow> Inl e
       | Inr (w', it') \<Rightarrow>
           (case view_loop Q w' it' of
              Inl e \<Rightarrow> Inl e
            | Inr (w'', rows) \<Rightarrow> Inr (w'', ?row # rows)))"
    by (subst view_loop.simps) (simp add: Suc.prems(1) deref)
  show ?case
  proof (cases "m = 0")
    case True
    with len_tl have "\<forall>col \<in> set cols. tl col = []"
      by (metis length_0_conv)
    then have r_end: "?r = map (\<lambda>c. []) cols"
      by simp
    have "next_row Q w ctx = next_row Q w (ctx\<lparr>m_curr_row := ?r, m_stage := eNextArchetype\<rparr>)"
      by (subst next_row.simps) (simp add: Suc.prems(1,3) inc eq True Let_def)
    then have "next_row Q w ctx = next_row Q w ?end"
      by (simp only: r_end)
    moreover have "lockstep_rows ?r = []"
      unfolding r_end using Suc.prems(4) by (intro lockstep_rows_empty) (cases cols, auto)
    ultimately show ?thesis
      by (simp add: loop rows split: sum.splits prod.splits)
  next
    case False
    let ?ctx1 = "ctx\<lparr>m_curr_row := ?r\<rparr>"
    have step: "next_row Q w ctx = Inr (w, ?ctx1)"
      by (subst next_row.simps) (simp add: Suc.prems(1,3) inc eq False Let_def)
    have "view_loop Q w ?ctx1 =
       (case next_row Q w (?ctx1\<lparr>m_curr_row := map (\<lambda>c. []) ?r, m_stage := eNextArchetype\<rparr>) of
          Inl e \<Rightarrow> Inl e
        | Inr (w', ctx') \<Rightarrow>
            (case view_loop Q w' ctx' of
               Inl e \<Rightarrow> Inl e
             | Inr (w'', rows) \<Rightarrow> Inr (w'', lockstep_rows ?r @ rows)))"
      using Suc.prems(1,3,4) len_r False
      by (intro Suc.IH) (simp_all add: comp_def)
    then show ?thesis
      by (simp add: loop step rows comp_def split: sum.splits prod.splits)
  qed
qed


lemma view_loop_finished:
  "m_stage ctx = eFinished \<Longrightarrow> view_loop Q w ctx = Inr (w, [])"
  by (subst view_loop.simps) simp

lemma next_row_NextArchetype:
  assumes "m_stage ctx = eNextArchetype" "m_curr_archetype_it ctx = B # rest"
  shows "next_row Q w ctx
           = next_row Q w (ctx\<lparr>m_stage := eBeginArchetype, m_curr_archetype_it := rest\<rparr>)"
  by (subst next_row.simps) (simp add: assms)

lemma next_row_begin:
  fixes ctx :: "'v GeneratorContext"
  assumes "Q \<noteq> []" and "\<forall>B \<in> set Bs. query_ready w Q B"
    and "m_stage ctx = eBeginArchetype" and "m_curr_archetype_it ctx = Bs"
    and "m_sentinel_archetype_it ctx = []"
  shows "\<exists>ctx'. next_row Q w ctx = Inr (w, ctx')
           \<and> view_loop Q w ctx' = Inr (w, rows_of_masks w Q Bs)"
  using assms(2-)
proof (induction Bs arbitrary: ctx)
  case Nil
  have "next_row Q w ctx = Inr (w, ctx\<lparr>m_stage := eFinished\<rparr>)"
    by (subst next_row.simps) (simp add: Nil.prems)
  moreover have "view_loop Q w (ctx\<lparr>m_stage := eFinished\<rparr>) = Inr (w, [])"
    by (rule view_loop_finished) simp
  ultimately show ?case
    by (simp add: rows_of_masks_def)
next
  case (Cons B rest)
  from Cons.prems(1) obtain a where
    arch: "fhm_find (s_component_archetype_map w) B = Some a" and
    cols: "\<forall>c \<in> set Q. map_of a c \<noteq> None" and
    len: "\<forall>col \<in> set (query_columns a Q). length col = length (archetype_entities a)"
    by (auto simp: query_ready_def split: option.splits)
  let ?cols = "query_columns a Q"
  let ?s = "map (\<lambda>c. []) Q :: 'v ColumnSetIterator"
  let ?ctx1 = "ctx\<lparr>m_curr_row := ?cols, m_sentinel_row := ?s\<rparr>"
  let ?next = "?ctx1\<lparr>m_curr_row := map (\<lambda>c. []) ?cols,
                 m_stage := eBeginArchetype, m_curr_archetype_it := rest\<rparr>"
  let ?skip = "?ctx1\<lparr>m_stage := eBeginArchetype, m_curr_archetype_it := rest\<rparr>"
  have cols_ne: "?cols \<noteq> []"
    using assms(1) by (simp add: query_columns_def)
  have s_cols: "?s = map (\<lambda>c. []) ?cols"
    by (simp add: query_columns_def comp_def)
  have eq: "ColumnSetIterator_eq ?cols ?s \<longleftrightarrow> (\<forall>col \<in> set ?cols. col = [])"
    by (rule eq_sentinel') (simp add: query_columns_def)
  have ready: "\<forall>B \<in> set rest. query_ready w Q B"
    using Cons.prems(1) by simp
  have rows: "rows_of_masks w Q (B # rest) = lockstep_rows ?cols @ rows_of_masks w Q rest"
    by (simp add: rows_of_masks_def arch archetype_rows_def)
  have first: "next_row Q w ctx =
      (if ColumnSetIterator_eq ?cols ?s then next_row Q w (?ctx1\<lparr>m_stage := eNextArchetype\<rparr>)
       else Inr (w, ?ctx1\<lparr>m_stage := eNextRow\<rparr>))"
    by (subst next_row.simps)
      (simp add: Cons.prems fhm_index_found [OF arch] begin_columns [OF cols]
        end_columns [OF cols] Let_def)
  show ?case
  proof (cases "length (archetype_entities a) = 0")
    case True
    with len have empty: "\<forall>col \<in> set ?cols. col = []"
      by simp
    from eq empty have "ColumnSetIterator_eq ?cols ?s"
      by blast
    with first have "next_row Q w ctx = next_row Q w (?ctx1\<lparr>m_stage := eNextArchetype\<rparr>)"
      by simp
    also have "\<dots> = next_row Q w ?skip"
      using next_row_NextArchetype [of "?ctx1\<lparr>m_stage := eNextArchetype\<rparr>" B rest Q w]
      by (simp add: Cons.prems)
    finally have step: "next_row Q w ctx = next_row Q w ?skip" .
    from Cons.IH [of ?skip, OF ready] obtain ctx' where
      "next_row Q w ?skip = Inr (w, ctx')" "view_loop Q w ctx' = Inr (w, rows_of_masks w Q rest)"
      by (auto simp: Cons.prems)
    moreover have "lockstep_rows ?cols = []"
      using cols_ne empty by (intro lockstep_rows_empty) (cases ?cols, auto)
    ultimately show ?thesis
      using step rows by simp
  next
    case False
    then have pos: "0 < length (archetype_entities a)"
      by simp
    with len cols_ne have "\<not> (\<forall>col \<in> set ?cols. col = [])"
      by (cases ?cols) auto
    with eq have "\<not> ColumnSetIterator_eq ?cols ?s"
      by blast
    with first have step: "next_row Q w ctx = Inr (w, ?ctx1\<lparr>m_stage := eNextRow\<rparr>)"
      by simp
    have "view_loop Q w (?ctx1\<lparr>m_stage := eNextRow\<rparr>) =
       (case next_row Q w (?ctx1\<lparr>m_stage := eNextRow, m_curr_row := map (\<lambda>c. []) ?cols,
                                 m_stage := eNextArchetype\<rparr>) of
          Inl e \<Rightarrow> Inl e
        | Inr (w', ctx') \<Rightarrow>
            (case view_loop Q w' ctx' of
               Inl e \<Rightarrow> Inl e
             | Inr (w'', rows) \<Rightarrow> Inr (w'', lockstep_rows ?cols @ rows)))"
      by (rule view_loop_rows [OF _ _ _ cols_ne len pos]) (simp_all add: s_cols [symmetric])
    moreover have "next_row Q w (?ctx1\<lparr>m_stage := eNextRow, m_curr_row := map (\<lambda>c. []) ?cols,
                                 m_stage := eNextArchetype\<rparr>) = next_row Q w ?next"
      using next_row_NextArchetype
        [of "?ctx1\<lparr>m_stage := eNextRow, m_curr_row := map (\<lambda>c. []) ?cols,
                    m_stage := eNextArchetype\<rparr>" B rest Q w]
      by (simp add: Cons.prems)
    moreover from Cons.IH [of ?next, OF ready] obtain ctx' where
      "next_row Q w ?next = Inr (w, ctx')" "view_loop Q w ctx' = Inr (w, rows_of_masks w Q rest)"
      by (auto simp: Cons.prems)
    ultimately have "view_loop Q w (?ctx1\<lparr>m_stage := eNextRow\<rparr>)
        = Inr (w, lockstep_rows ?cols @ rows_of_masks w Q rest)"
      by simp
    with step rows show ?thesis
      by simp
  qed
qed


lemma lockstep_rows_keys:
  assumes "cols \<noteq> []" "\<forall>col \<in> set cols. map fst col = ks"
  shows "map fst (lockstep_rows cols) = ks"
  using assms
proof (induction ks arbitrary: cols)
  case Nil
  then have "\<exists>col \<in> set cols. col = []"
    by (cases cols) auto
  then show ?case
    by (simp add: lockstep_rows_empty)
next
  case (Cons k ks)
  have nonempty: "\<forall>col \<in> set cols. col \<noteq> []"
    using Cons.prems(2) by auto
  have "hd cols \<in> set cols"
    using Cons.prems(1) by simp
  with Cons.prems(2) have "map fst (hd cols) = k # ks"
    by blast
  then have k: "fst (hd (hd cols)) = k"
    by (cases "hd cols") auto
  have "\<forall>col \<in> set (map tl cols). map fst col = ks"
    using Cons.prems(2) by (auto simp: map_tl [symmetric])
  with Cons.IH [of "map tl cols"] Cons.prems(1)
  have "map fst (lockstep_rows (map tl cols)) = ks"
    by simp
  then show ?case
    by (simp add: lockstep_rows_step [OF Cons.prems(1) nonempty] k)
qed

lemma list_all2_cong_left:
  assumes "\<And>x y. x \<in> set xs \<Longrightarrow> P x y \<longleftrightarrow> Q x y"
  shows "list_all2 P xs ys \<longleftrightarrow> list_all2 Q xs ys"
  using assms by (auto simp: list_all2_conv_all_nth)

lemma list_all2_is_map: "list_all2 (\<lambda>x y. f x = y) xs ys \<longleftrightarrow> ys = map f xs"
  by (induction xs arbitrary: ys) (auto simp: list_all2_Cons1)

lemma lockstep_rows_member:
  assumes "cols \<noteq> []" "\<forall>col \<in> set cols. map fst col = ks" "distinct ks"
  shows "(e, vs) \<in> set (lockstep_rows cols)
           \<longleftrightarrow> e \<in> set ks \<and> list_all2 (\<lambda>col v. map_of col e = Some v) cols vs"
  using assms
proof (induction ks arbitrary: cols)
  case Nil
  then have "\<exists>col \<in> set cols. col = []"
    by (cases cols) auto
  then show ?case
    by (simp add: lockstep_rows_empty)
next
  case (Cons k ks)
  have nonempty: "\<forall>col \<in> set cols. col \<noteq> []"
    using Cons.prems(2) by auto
  have heads: "\<forall>col \<in> set cols. fst (hd col) = k"
  proof
    fix col assume "col \<in> set cols"
    with Cons.prems(2) have "map fst col = k # ks" by blast
    then show "fst (hd col) = k" by (cases col) auto
  qed
  have "hd cols \<in> set cols"
    using Cons.prems(1) by simp
  with heads have k: "fst (hd (hd cols)) = k"
    by blast
  have tails: "\<forall>col \<in> set (map tl cols). map fst col = ks"
    using Cons.prems(2) by (auto simp: map_tl [symmetric])
  have IH: "(e, vs) \<in> set (lockstep_rows (map tl cols))
           \<longleftrightarrow> e \<in> set ks \<and> list_all2 (\<lambda>col v. map_of col e = Some v) (map tl cols) vs"
    using Cons.IH [of "map tl cols"] Cons.prems(1,3) tails by simp
  have lookup: "map_of col e = (if e = k then Some (snd (hd col)) else map_of (tl col) e)"
    if "col \<in> set cols" for col
  proof -
    from that nonempty have "col \<noteq> []"
      by blast
    then obtain p col' where col: "col = p # col'"
      by (auto simp: neq_Nil_conv)
    from that heads have "fst (hd col) = k"
      by blast
    with col have "p = (k, snd p)"
      by (simp add: prod_eq_iff)
    with col have "col = (k, snd p) # col'"
      by simp
    then show ?thesis
      by (simp del: prod.collapse)
  qed
  have all2: "list_all2 (\<lambda>col v. map_of col e = Some v) cols vs
      \<longleftrightarrow> list_all2 (\<lambda>col v. (if e = k then Some (snd (hd col)) else map_of (tl col) e) = Some v) cols vs"
    by (rule list_all2_cong_left) (simp add: lookup)
  show ?case
  proof (cases "e = k")
    case True
    then have "e \<notin> set ks"
      using Cons.prems(3) by simp
    with IH have "(e, vs) \<notin> set (lockstep_rows (map tl cols))"
      by simp
    then have "(e, vs) \<in> set (lockstep_rows cols) \<longleftrightarrow> vs = map (\<lambda>it. snd (hd it)) cols"
      using True by (auto simp: lockstep_rows_step [OF Cons.prems(1) nonempty] k)
    also have "\<dots> \<longleftrightarrow> list_all2 (\<lambda>col v. map_of col e = Some v) cols vs"
      unfolding all2 using True by (simp add: list_all2_is_map)
    finally show ?thesis
      using True by simp
  next
    case False
    then have "(e, vs) \<in> set (lockstep_rows cols) \<longleftrightarrow> (e, vs) \<in> set (lockstep_rows (map tl cols))"
      by (auto simp: lockstep_rows_step [OF Cons.prems(1) nonempty] k)
    also have "\<dots> \<longleftrightarrow> e \<in> set ks \<and> list_all2 (\<lambda>col v. map_of (tl col) e = Some v) cols vs"
      by (simp add: IH list_all2_map1)
    also have "\<dots> \<longleftrightarrow> e \<in> set (k # ks) \<and> list_all2 (\<lambda>col v. map_of col e = Some v) cols vs"
      unfolding all2 using False by simp
    finally show ?thesis .
  qed
qed


lemma world_inv_lookup:
  assumes "world_inv w" "fhm_find (s_component_archetype_map w) B = Some a"
  shows "archetype_inv B a"
    and "\<forall>e \<in> set (archetype_entities a). fhm_find (s_entity_archetype_map w) e = Some B"
    and "B \<in> set (s_component_trie w)"
proof -
  from assms(2) have "(B, a) \<in> set (s_component_archetype_map w)"
    by (simp add: fhm_find_def map_of_SomeD)
  with assms(1) show "archetype_inv B a"
    and "\<forall>e \<in> set (archetype_entities a). fhm_find (s_entity_archetype_map w) e = Some B"
    and "B \<in> set (s_component_trie w)"
    by (auto simp: world_inv_def fhm_keys_def intro: rev_image_eqI)
qed

lemma archetype_inv_columns:
  assumes "archetype_inv B a" "map_of a c = Some col"
  shows "fhm_keys col = archetype_entities a"
  using assms by (auto simp: archetype_inv_def dest: map_of_SomeD)


lemma world_inv_indexed:
  assumes "world_inv w" "B \<in> set (s_component_trie w)"
  obtains a where "fhm_find (s_component_archetype_map w) B = Some a"
proof -
  from assms have "B \<in> set (fhm_keys (s_component_archetype_map w))"
    by (simp add: world_inv_def)
  then have "fhm_find (s_component_archetype_map w) B \<noteq> None"
    by (simp add: fhm_find_None_keys)
  then show thesis
    using that by blast
qed

lemma mask_subset_bit:
  assumes "B AND q = (q :: component_bitfield_t)" "bit q n"
  shows "bit B n"
proof -
  from assms(1) have "bit (B AND q) n = bit q n"
    by simp
  with assms(2) show ?thesis
    by (simp add: bit_and_iff)
qed

lemma archetype_inv_query:
  assumes inv: "archetype_inv B a" and ok: "component_traits_ok Q"
    and sup: "B AND ecs_component_mask Q = ecs_component_mask Q"
    and c: "c \<in> set Q"
  shows "\<exists>col. map_of a c = Some col \<and> map fst col = archetype_entities a"
proof -
  from ok c have n: "unat c < kMaxComponents"
    by (simp add: component_traits_ok_def list_all_iff)
  from c have "bit (ecs_component_mask Q) (unat c)"
    by (simp add: bit_mask_member [OF n])
  with sup have "bit B (unat c)"
    by (rule mask_subset_bit)
  with inv have "c \<in> set (map fst a)"
    by (simp add: archetype_inv_def bit_mask_member [OF n])
  then obtain col where col: "(c, col) \<in> set a"
    by auto
  from inv have "distinct (map fst a)"
    by (simp add: archetype_inv_def)
  with col have "map_of a c = Some col"
    by simp
  moreover from inv col have "map fst col = archetype_entities a"
    by (auto simp: archetype_inv_def fhm_keys_def)
  ultimately show ?thesis by blast
qed

lemma query_columns_keys:
  assumes "\<forall>c \<in> set Q. \<exists>col. map_of a c = Some col \<and> map fst col = ks"
  shows "\<forall>col \<in> set (query_columns a Q). map fst col = ks"
  using assms by (auto simp: query_columns_def)

lemma archetype_rows_member:
  assumes cols: "\<forall>c \<in> set Q. \<exists>col. map_of a c = Some col \<and> map fst col = archetype_entities a"
    and "Q \<noteq> []" and "distinct (archetype_entities a)"
  shows "(e, vs) \<in> set (archetype_rows a Q)
     \<longleftrightarrow> e \<in> set (archetype_entities a)
         \<and> list_all2 (\<lambda>c v. \<exists>col. map_of a c = Some col \<and> fhm_find col e = Some v) Q vs"
proof -
  have ne: "query_columns a Q \<noteq> []"
    using assms(2) by (simp add: query_columns_def)
  have "(e, vs) \<in> set (archetype_rows a Q)
     \<longleftrightarrow> e \<in> set (archetype_entities a)
         \<and> list_all2 (\<lambda>col v. map_of col e = Some v) (query_columns a Q) vs"
    unfolding archetype_rows_def
    by (rule lockstep_rows_member [OF ne query_columns_keys [OF cols] assms(3)])
  also have "list_all2 (\<lambda>col v. map_of col e = Some v) (query_columns a Q) vs
     \<longleftrightarrow> list_all2 (\<lambda>c v. map_of (case map_of a c of None \<Rightarrow> [] | Some col \<Rightarrow> col) e = Some v) Q vs"
    by (simp add: query_columns_def list_all2_map1)
  also have "\<dots> \<longleftrightarrow> list_all2 (\<lambda>c v. \<exists>col. map_of a c = Some col \<and> fhm_find col e = Some v) Q vs"
  proof (rule list_all2_cong_left)
    fix c v assume "c \<in> set Q"
    with cols obtain col where "map_of a c = Some col" by blast
    then show "map_of (case map_of a c of None \<Rightarrow> [] | Some col \<Rightarrow> col) e = Some v
        \<longleftrightarrow> (\<exists>col. map_of a c = Some col \<and> fhm_find col e = Some v)"
      by (simp add: fhm_find_def)
  qed
  finally show ?thesis .
qed

lemma archetype_rows_keys:
  assumes cols: "\<forall>c \<in> set Q. \<exists>col. map_of a c = Some col \<and> map fst col = archetype_entities a"
    and "Q \<noteq> []"
  shows "map fst (archetype_rows a Q) = archetype_entities a"
proof -
  have ne: "query_columns a Q \<noteq> []"
    using assms(2) by (simp add: query_columns_def)
  show ?thesis
    unfolding archetype_rows_def
    by (rule lockstep_rows_keys [OF ne query_columns_keys [OF cols]])
qed


lemma matched_ready:
  assumes inv: "world_inv w" and ok: "component_traits_ok Q"
    and B: "B \<in> set (trie_view_match_mask (s_component_trie w) (ecs_component_mask Q))"
  obtains a where
    "fhm_find (s_component_archetype_map w) B = Some a"
    "\<forall>c \<in> set Q. \<exists>col. map_of a c = Some col \<and> map fst col = archetype_entities a"
    "distinct (archetype_entities a)"
    "\<forall>e \<in> set (archetype_entities a). fhm_find (s_entity_archetype_map w) e = Some B"
proof -
  from B have trie: "B \<in> set (s_component_trie w)"
    and sup: "B AND ecs_component_mask Q = ecs_component_mask Q"
    by (simp_all add: trie_view_match_mask_def)
  from inv trie obtain a where a: "fhm_find (s_component_archetype_map w) B = Some a"
    by (rule world_inv_indexed)
  note facts = world_inv_lookup [OF inv a]
  have "\<forall>c \<in> set Q. \<exists>col. map_of a c = Some col \<and> map fst col = archetype_entities a"
    using archetype_inv_query [OF facts(1) ok sup] by blast
  moreover have "distinct (archetype_entities a)"
    using facts(1) by (simp add: archetype_inv_def)
  ultimately show thesis
    using a facts(2) that by blast
qed

lemma matched_query_ready:
  assumes inv: "world_inv w" and ok: "component_traits_ok Q"
  shows "\<forall>B \<in> set (trie_view_match_mask (s_component_trie w) (ecs_component_mask Q)).
           query_ready w Q B"
proof
  fix B assume "B \<in> set (trie_view_match_mask (s_component_trie w) (ecs_component_mask Q))"
  with inv ok obtain a where
    a: "fhm_find (s_component_archetype_map w) B = Some a" and
    cols: "\<forall>c \<in> set Q. \<exists>col. map_of a c = Some col \<and> map fst col = archetype_entities a"
    by (rule matched_ready)
  from query_columns_keys [OF cols]
  have "\<forall>col \<in> set (query_columns a Q). length col = length (archetype_entities a)"
    by (metis length_map)
  with a cols show "query_ready w Q B"
    by (auto simp: query_ready_def)
qed

lemma view_rows_spec:
  assumes inv: "world_inv w" and ne: "Q \<noteq> []" and ok: "component_traits_ok Q"
  shows "components_view_rows Q w = Inr (w, view_spec Q w)"
proof -
  let ?Bs = "trie_view_match_mask (s_component_trie w) (ecs_component_mask Q)"
  let ?ctx = "\<lparr>m_stage = eBeginArchetype, m_curr_archetype_it = ?Bs,
       m_sentinel_archetype_it = [], m_curr_row = map (\<lambda>c. []) Q,
       m_sentinel_row = map (\<lambda>c. []) Q\<rparr> :: 'a GeneratorContext"
  from next_row_begin [OF ne matched_query_ready [OF inv ok], of ?ctx]
  obtain ctx' where
    "next_row Q w ?ctx = Inr (w, ctx')" "view_loop Q w ctx' = Inr (w, rows_of_masks w Q ?Bs)"
    by auto
  then show ?thesis
    by (simp add: components_view_rows_def components_view_begin_def Iterator_ctor_def
        ColumnSetIterator_well_formed_def ne view_spec_def Let_def)
qed

lemma rows_of_masks_member:
  "row \<in> set (rows_of_masks w Q Bs)
     \<longleftrightarrow> (\<exists>B \<in> set Bs. \<exists>a. fhm_find (s_component_archetype_map w) B = Some a
                          \<and> row \<in> set (archetype_rows a Q))"
  by (induction Bs) (auto simp: rows_of_masks_def split: option.splits)

lemma rows_of_masks_distinct:
  assumes inv: "world_inv w" and ne: "Q \<noteq> []" and ok: "component_traits_ok Q"
    and sub: "set Bs \<subseteq> set (trie_view_match_mask (s_component_trie w) (ecs_component_mask Q))"
    and dist: "distinct Bs"
  shows "distinct (map fst (rows_of_masks w Q Bs))
       \<and> (\<forall>e \<in> fst ` set (rows_of_masks w Q Bs).
             \<exists>B \<in> set Bs. fhm_find (s_entity_archetype_map w) e = Some B)
       \<and> (\<forall>B \<in> set Bs. \<forall>a. fhm_find (s_component_archetype_map w) B = Some a
             \<longrightarrow> set (archetype_entities a) \<subseteq> fst ` set (rows_of_masks w Q Bs))"
  using sub dist
proof (induction Bs)
  case Nil
  show ?case by (simp add: rows_of_masks_def)
next
  case (Cons B Bs)
  from Cons.prems have "B \<in> set (trie_view_match_mask (s_component_trie w) (ecs_component_mask Q))"
    by simp
  with inv ok obtain a where
    a: "fhm_find (s_component_archetype_map w) B = Some a" and
    cols: "\<forall>c \<in> set Q. \<exists>col. map_of a c = Some col \<and> map fst col = archetype_entities a" and
    da: "distinct (archetype_entities a)" and
    reg: "\<forall>e \<in> set (archetype_entities a). fhm_find (s_entity_archetype_map w) e = Some B"
    by (rule matched_ready)
  have keys: "map fst (archetype_rows a Q) = archetype_entities a"
    by (rule archetype_rows_keys [OF cols ne])
  have split: "rows_of_masks w Q (B # Bs) = archetype_rows a Q @ rows_of_masks w Q Bs"
    by (simp add: rows_of_masks_def a)
  from Cons have IH: "distinct (map fst (rows_of_masks w Q Bs))"
    "\<forall>e \<in> fst ` set (rows_of_masks w Q Bs).
        \<exists>B' \<in> set Bs. fhm_find (s_entity_archetype_map w) e = Some B'"
    "\<forall>B' \<in> set Bs. \<forall>a. fhm_find (s_component_archetype_map w) B' = Some a
        \<longrightarrow> set (archetype_entities a) \<subseteq> fst ` set (rows_of_masks w Q Bs)"
    by simp_all
  have disjoint: "set (archetype_entities a) \<inter> fst ` set (rows_of_masks w Q Bs) = {}"
  proof (rule ccontr)
    assume "set (archetype_entities a) \<inter> fst ` set (rows_of_masks w Q Bs) \<noteq> {}"
    then obtain e where e: "e \<in> set (archetype_entities a)" "e \<in> fst ` set (rows_of_masks w Q Bs)"
      by blast
    from e(1) reg have "fhm_find (s_entity_archetype_map w) e = Some B"
      by blast
    moreover from e(2) IH(2) obtain B' where
      "B' \<in> set Bs" "fhm_find (s_entity_archetype_map w) e = Some B'"
      by blast
    ultimately have "B \<in> set Bs" by simp
    with Cons.prems(2) show False by simp
  qed
  have "distinct (map fst (rows_of_masks w Q (B # Bs)))"
    using IH(1) da disjoint by (simp add: split keys)
  moreover have "\<exists>B' \<in> set (B # Bs). fhm_find (s_entity_archetype_map w) e = Some B'"
    if "e \<in> fst ` set (rows_of_masks w Q (B # Bs))" for e
  proof -
    from that have "e \<in> set (map fst (archetype_rows a Q)) \<or> e \<in> fst ` set (rows_of_masks w Q Bs)"
      by (auto simp: split)
    then show ?thesis
      using reg IH(2) by (auto simp: keys)
  qed
  moreover have "set (archetype_entities a'') \<subseteq> fst ` set (rows_of_masks w Q (B # Bs))"
    if "B' \<in> set (B # Bs)" "fhm_find (s_component_archetype_map w) B' = Some a''" for B' a''
  proof (cases "B' = B")
    case True
    with that a have "a'' = a" by simp
    moreover have "set (archetype_entities a) = fst ` set (archetype_rows a Q)"
      by (simp add: keys [symmetric])
    ultimately show ?thesis
      by (auto simp: split)
  next
    case False
    with that IH(3) have "set (archetype_entities a'') \<subseteq> fst ` set (rows_of_masks w Q Bs)"
      by auto
    then show ?thesis
      by (auto simp: split)
  qed
  ultimately show ?case by (intro conjI ballI allI impI) blast+
qed


lemma world_inv_AB: "world_inv world_AB"
  by (simp add: world_inv_def archetype_inv_def archetype_entities_def component_traits_ok_def
      kMaxComponents_def model_defs example_defs)

lemma view_spec_AB_0: "view_spec [0] world_AB = [(0, [0]), (1, [0])]"
  by (simp add: view_spec_def rows_of_masks_def archetype_rows_def query_columns_def
      trie_view_match_mask_def lockstep_rows.simps ColumnSetIterator_deref_def
      model_defs example_defs)

lemma view_spec_AB_1: "view_spec [1] world_AB = [(1, [7])]"
  by (simp add: view_spec_def rows_of_masks_def archetype_rows_def query_columns_def
      trie_view_match_mask_def lockstep_rows.simps ColumnSetIterator_deref_def
      model_defs example_defs)

text \<open>
  Claim C1. In a consistent world and for a non-empty query \<open>Q\<close> of component types with
  ids below 128, iterating the view over \<open>Q\<close> returns, leaves the world unchanged, and
  yields rows such that: no entity id occurs in two rows; a tuple \<open>(e, v1, ..., vk)\<close> is
  yielded if and only if \<open>e\<close> is stored in an archetype of the store whose mask \<open>B\<close>
  satisfies \<open>B & Q == Q\<close> and \<open>vi\<close> is the value stored for \<open>e\<close> in the column of the
  \<open>i\<close>-th component of \<open>Q\<close> in that archetype; and no entity of an archetype whose mask
  lacks a bit of \<open>Q\<close> occurs in a row; a live handle has a row exactly when the mask of
  its shape is a superset of the mask of \<open>Q\<close>. The enumeration of the index is the one the
  specification describes (every stored mask that is a superset of the query's mask, once).
\<close>

theorem view_superset_query:
  assumes inv: "world_inv w" and ne: "Q \<noteq> []" and ok: "component_traits_ok Q"
  shows "\<exists>rows.
           components_view_rows Q w = Inr (w, rows)
         \<and> distinct (map fst rows)
         \<and> (\<forall>e vs. (e, vs) \<in> set rows \<longleftrightarrow>
               (\<exists>B a. fhm_find (s_component_archetype_map w) B = Some a
                     \<and> B AND ecs_component_mask Q = ecs_component_mask Q
                     \<and> e \<in> set (archetype_entities a)
                     \<and> list_all2 (\<lambda>c v. \<exists>col. map_of a c = Some col \<and> fhm_find col e = Some v) Q vs))
         \<and> (\<forall>B a e. fhm_find (s_component_archetype_map w) B = Some a
               \<longrightarrow> B AND ecs_component_mask Q \<noteq> ecs_component_mask Q
               \<longrightarrow> e \<in> set (archetype_entities a)
               \<longrightarrow> e \<notin> fst ` set rows)
         \<and> (\<forall>h. live w h \<longrightarrow>
               (m_id h \<in> fst ` set rows \<longleftrightarrow>
                  ecs_component_mask (components_type (derived_type h)) AND ecs_component_mask Q
                    = ecs_component_mask Q))"
proof -
  let ?q = "ecs_component_mask Q"
  let ?Bs = "trie_view_match_mask (s_component_trie w) ?q"
  let ?rows = "view_spec Q w"
  have run: "components_view_rows Q w = Inr (w, ?rows)"
    by (rule view_rows_spec [OF inv ne ok])
  have dBs: "distinct ?Bs"
    using inv by (simp add: world_inv_def trie_view_match_mask_def)
  from rows_of_masks_distinct [OF inv ne ok subset_refl dBs]
  have dist: "distinct (map fst ?rows)"
    and regs: "\<forall>e \<in> fst ` set ?rows. \<exists>B \<in> set ?Bs. fhm_find (s_entity_archetype_map w) e = Some B"
    and covered: "\<forall>B \<in> set ?Bs. \<forall>a. fhm_find (s_component_archetype_map w) B = Some a
             \<longrightarrow> set (archetype_entities a) \<subseteq> fst ` set ?rows"
    by (simp_all add: view_spec_def)
  have member: "(e, vs) \<in> set ?rows \<longleftrightarrow>
       (\<exists>B a. fhm_find (s_component_archetype_map w) B = Some a
             \<and> B AND ?q = ?q
             \<and> e \<in> set (archetype_entities a)
             \<and> list_all2 (\<lambda>c v. \<exists>col. map_of a c = Some col \<and> fhm_find col e = Some v) Q vs)"
    (is "?L \<longleftrightarrow> ?R") for e vs
  proof
    assume ?L
    then obtain B a where
      B: "B \<in> set ?Bs" and a: "fhm_find (s_component_archetype_map w) B = Some a" and
      row: "(e, vs) \<in> set (archetype_rows a Q)"
      by (auto simp: view_spec_def rows_of_masks_member)
    from inv ok B obtain a' where
      "fhm_find (s_component_archetype_map w) B = Some a'"
      "\<forall>c \<in> set Q. \<exists>col. map_of a' c = Some col \<and> map fst col = archetype_entities a'"
      "distinct (archetype_entities a')"
      by (rule matched_ready)
    with a have cols: "\<forall>c \<in> set Q. \<exists>col. map_of a c = Some col \<and> map fst col = archetype_entities a"
      and da: "distinct (archetype_entities a)"
      by simp_all
    from row have "e \<in> set (archetype_entities a)
         \<and> list_all2 (\<lambda>c v. \<exists>col. map_of a c = Some col \<and> fhm_find col e = Some v) Q vs"
      by (simp add: archetype_rows_member [OF cols ne da])
    moreover from B have "B AND ?q = ?q"
      by (simp add: trie_view_match_mask_def)
    ultimately show ?R
      using a by blast
  next
    assume ?R
    then obtain B a where
      a: "fhm_find (s_component_archetype_map w) B = Some a" and
      sup: "B AND ?q = ?q" and
      e: "e \<in> set (archetype_entities a)" and
      vs: "list_all2 (\<lambda>c v. \<exists>col. map_of a c = Some col \<and> fhm_find col e = Some v) Q vs"
      by blast
    from world_inv_lookup(3) [OF inv a] sup have B: "B \<in> set ?Bs"
      by (simp add: trie_view_match_mask_def)
    from inv ok B obtain a' where
      "fhm_find (s_component_archetype_map w) B = Some a'"
      "\<forall>c \<in> set Q. \<exists>col. map_of a' c = Some col \<and> map fst col = archetype_entities a'"
      "distinct (archetype_entities a')"
      by (rule matched_ready)
    with a have cols: "\<forall>c \<in> set Q. \<exists>col. map_of a c = Some col \<and> map fst col = archetype_entities a"
      and da: "distinct (archetype_entities a)"
      by simp_all
    from e vs have "(e, vs) \<in> set (archetype_rows a Q)"
      by (simp add: archetype_rows_member [OF cols ne da])
    with B a show ?L
      by (auto simp: view_spec_def rows_of_masks_member)
  qed
  have others: "e \<notin> fst ` set ?rows"
    if a: "fhm_find (s_component_archetype_map w) B = Some a"
      and nsup: "B AND ?q \<noteq> ?q" and e: "e \<in> set (archetype_entities a)" for B a e
  proof
    assume "e \<in> fst ` set ?rows"
    with regs obtain B' where "B' \<in> set ?Bs" "fhm_find (s_entity_archetype_map w) e = Some B'"
      by blast
    moreover from world_inv_lookup(2) [OF inv a] e
    have "fhm_find (s_entity_archetype_map w) e = Some B"
      by blast
    ultimately have "B \<in> set ?Bs" by simp
    with nsup show False
      by (simp add: trie_view_match_mask_def)
  qed
  have handles: "m_id h \<in> fst ` set ?rows
        \<longleftrightarrow> ecs_component_mask (components_type (derived_type h)) AND ?q = ?q"
    (is "?L \<longleftrightarrow> ?R") if h: "live w h" for h
  proof
    assume ?L
    with regs obtain B where "B \<in> set ?Bs" "fhm_find (s_entity_archetype_map w) (m_id h) = Some B"
      by blast
    moreover from h have "fhm_find (s_entity_archetype_map w) (m_id h)
        = Some (ecs_component_mask (components_type (derived_type h)))"
      by (simp add: live_def registered_def)
    ultimately show ?R
      by (simp add: trie_view_match_mask_def)
  next
    assume sup: ?R
    from ne obtain c where c: "c \<in> set Q"
      by (cases Q) auto
    with ok have n: "unat c < kMaxComponents"
      by (simp add: component_traits_ok_def list_all_iff)
    from c have "bit ?q (unat c)"
      by (simp add: bit_mask_member [OF n])
    with sup have "bit (ecs_component_mask (components_type (derived_type h))) (unat c)"
      by (rule mask_subset_bit)
    then have "has_component (derived_type h) c"
      by (simp add: bit_mask_member [OF n] has_component_def)
    with h obtain a col where
      a: "fhm_find (s_component_archetype_map w)
            (ecs_component_mask (components_type (derived_type h))) = Some a" and
      col: "map_of a c = Some col" and row: "m_id h \<in> set (fhm_keys col)"
      by (rule live_row)
    from archetype_inv_columns [OF world_inv_lookup(1) [OF inv a] col] row
    have "m_id h \<in> set (archetype_entities a)"
      by simp
    moreover from world_inv_lookup(3) [OF inv a] sup
    have "ecs_component_mask (components_type (derived_type h)) \<in> set ?Bs"
      by (simp add: trie_view_match_mask_def)
    ultimately show ?L
      using covered a by blast
  qed
  show ?thesis
  proof (intro exI conjI)
    show "components_view_rows Q w = Inr (w, ?rows)"
      by (rule run)
    show "distinct (map fst ?rows)"
      by (rule dist)
    show "\<forall>e vs. (e, vs) \<in> set ?rows \<longleftrightarrow>
               (\<exists>B a. fhm_find (s_component_archetype_map w) B = Some a
                     \<and> B AND ?q = ?q
                     \<and> e \<in> set (archetype_entities a)
                     \<and> list_all2 (\<lambda>c v. \<exists>col. map_of a c = Some col \<and> fhm_find col e = Some v) Q vs)"
      using member by blast
    show "\<forall>B a e. fhm_find (s_component_archetype_map w) B = Some a
               \<longrightarrow> B AND ?q \<noteq> ?q
               \<longrightarrow> e \<in> set (archetype_entities a)
               \<longrightarrow> e \<notin> fst ` set ?rows"
      using others by blast
    show "\<forall>h. live w h \<longrightarrow>
               (m_id h \<in> fst ` set ?rows \<longleftrightarrow>
                  ecs_component_mask (components_type (derived_type h)) AND ?q = ?q)"
      using handles by blast
  qed
qed


theorem view_superset_query_witness:
  "world_inv world_AB \<and> [0 :: component_id_t] \<noteq> [] \<and> component_traits_ok [0]
   \<and> component_traits_ok [1]
   \<and> components_view_rows [0] world_AB = Inr (world_AB, [(0, [0]), (1, [0])])
   \<and> components_view_rows [1] world_AB = Inr (world_AB, [(1, [7])])"
proof -
  have ne0: "[0 :: component_id_t] \<noteq> []" and ne1: "[1 :: component_id_t] \<noteq> []"
    by simp_all
  have ok0: "component_traits_ok [0]" and ok1: "component_traits_ok [1]"
    by (simp_all add: component_traits_ok_def kMaxComponents_def)
  have "\<exists>rows. components_view_rows [0] world_AB = Inr (world_AB, rows)"
    using view_superset_query [OF world_inv_AB ne0 ok0]
    by - (erule exE, erule conjE, rule exI, assumption)
  then obtain rows0 where
    r0: "components_view_rows [0] world_AB = Inr (world_AB, rows0)" ..
  have "\<exists>rows. components_view_rows [1] world_AB = Inr (world_AB, rows)"
    using view_superset_query [OF world_inv_AB ne1 ok1]
    by - (erule exE, erule conjE, rule exI, assumption)
  then obtain rows1 where
    r1: "components_view_rows [1] world_AB = Inr (world_AB, rows1)" ..
  from r0 have "rows0 = [(0, [0]), (1, [0])]"
    by (simp add: view_rows_spec [OF world_inv_AB ne0 ok0] view_spec_AB_0)
  moreover from r1 have "rows1 = [(1, [7])]"
    by (simp add: view_rows_spec [OF world_inv_AB ne1 ok1] view_spec_AB_1)
  ultimately show ?thesis
    using r0 r1 world_inv_AB ok0 ok1 by simp
qed

subsection \<open>The empty query\<close>

text \<open>
  Claim C8, as stated, fails: in the world holding the two live entities 0 and 1 the view
  over the empty component set has no iteration at all, because its iterator needs the
  ill-formed class \<^verbatim>\<open>ColumnSetIterator<>\<close>; no entity is visited.
\<close>

theorem empty_view_counterexample:
  "live world_AB entity_A \<and> live world_AB entity_B
   \<and> components_view_begin [] world_AB = Inl IllFormed
   \<and> components_view_rows [] world_AB = Inl IllFormed"
  using live_A live_B
  by (simp add: components_view_rows_def components_view_begin_def Iterator_ctor_def
      ColumnSetIterator_well_formed_def)

text \<open>
  Claim C8, amended. A view over the empty component set has the query mask 0, which the
  mask of every archetype matches, so its enumeration of the index gives every indexed mask;
  but the view cannot be iterated: the iterator of the view holds
  \<^verbatim>\<open>ColumnSetIterator<Components...>\<close>, which is ill-formed for the empty pack, so a
  program that calls \<^verbatim>\<open>begin()\<close> or \<^verbatim>\<open>end()\<close> of the empty view is rejected at compile
  time, in every world. The empty pack is the only one rejected for that reason.
\<close>

theorem empty_view_ill_formed:
  "ecs_component_mask [] = 0
   \<and> trie_view_match_mask (s_component_trie w) (ecs_component_mask []) = s_component_trie w
   \<and> components_view_begin [] w = Inl IllFormed
   \<and> components_view_end [] w = Inl IllFormed
   \<and> components_view_rows [] w = Inl IllFormed
   \<and> (components_view_end Q w = Inl IllFormed \<longleftrightarrow> Q = [])"
proof -
  have "components_view_end Q w \<noteq> Inl IllFormed" if "Q \<noteq> []"
    using components_view_end_finished [OF that, of w] by auto
  moreover have "components_view_end [] w = Inl IllFormed"
    by (simp add: components_view_end_def Iterator_ctor_def ColumnSetIterator_well_formed_def)
  ultimately have "components_view_end Q w = Inl IllFormed \<longleftrightarrow> Q = []"
    by auto
  then show ?thesis
    by (simp add: components_view_rows_def components_view_begin_def components_view_end_def
        Iterator_ctor_def ColumnSetIterator_well_formed_def trie_view_match_mask_def
        ecs_component_mask_def)
qed

theorem empty_view_ill_formed_witness:
  "trie_view_match_mask (s_component_trie world_A) (ecs_component_mask []) = [1]
   \<and> components_view_begin [] world_A = Inl IllFormed
   \<and> components_view_end [] world_A = Inl IllFormed
   \<and> components_view_rows [] world_A = Inl IllFormed
   \<and> components_view_end [0] world_A \<noteq> Inl IllFormed"
proof -
  have "s_component_trie world_A = [1]"
    by (simp add: example_defs)
  with empty_view_ill_formed [of world_A "[0]"] show ?thesis
    by (elim conjE) simp
qed


subsection \<open>The worlds reached without a move are consistent\<close>

lemma fhm_find_entry:
  assumes "distinct (fhm_keys m)"
  shows "(k, v) \<in> set m \<longleftrightarrow> fhm_find m k = Some v"
  using assms by (simp add: fhm_keys_def fhm_find_def)

lemma world_inv_iff:
  "world_inv w \<longleftrightarrow>
     distinct (s_component_trie w)
     \<and> set (s_component_trie w) = set (fhm_keys (s_component_archetype_map w))
     \<and> distinct (fhm_keys (s_component_archetype_map w))
     \<and> (\<forall>B a. fhm_find (s_component_archetype_map w) B = Some a \<longrightarrow>
           archetype_inv B a
           \<and> (\<forall>e \<in> set (archetype_entities a). fhm_find (s_entity_archetype_map w) e = Some B))
     \<and> (\<forall>(e, B) \<in> set (s_entity_archetype_map w).
           B \<in> set (fhm_keys (s_component_archetype_map w)) \<and> e < s_next_entity_id w)"
proof (cases "distinct (fhm_keys (s_component_archetype_map w))")
  case True
  have "(\<forall>(B, a) \<in> set (s_component_archetype_map w). P B a)
      \<longleftrightarrow> (\<forall>B a. fhm_find (s_component_archetype_map w) B = Some a \<longrightarrow> P B a)" for P
    using fhm_find_entry [OF True] by (simp add: split_beta Ball_def)
  then show ?thesis
    unfolding world_inv_def by simp
next
  case False
  then show ?thesis by (simp add: world_inv_def)
qed

lemma world_inv_step:
  assumes inv: "world_inv w"
    and keys: "distinct (fhm_keys (s_component_archetype_map w'))"
      "set (fhm_keys (s_component_archetype_map w')) = insert B (set (fhm_keys (s_component_archetype_map w)))"
    and find: "\<forall>B'. fhm_find (s_component_archetype_map w') B'
                 = (if B' = B then Some a' else fhm_find (s_component_archetype_map w) B')"
    and trie: "distinct (s_component_trie w')"
      "set (s_component_trie w') = insert B (set (s_component_trie w))"
    and a': "archetype_inv B a'"
    and reg_old: "\<forall>e B'. fhm_find (s_entity_archetype_map w) e = Some B'
                    \<longrightarrow> fhm_find (s_entity_archetype_map w') e = Some B'"
    and ents: "\<forall>e \<in> set (archetype_entities a'). fhm_find (s_entity_archetype_map w') e = Some B"
    and reg_new: "\<forall>(e, B') \<in> set (s_entity_archetype_map w').
                    B' \<in> set (fhm_keys (s_component_archetype_map w')) \<and> e < s_next_entity_id w'"
  shows "world_inv w'"
proof -
  note old = inv [unfolded world_inv_iff]
  have "archetype_inv B' a
        \<and> (\<forall>e \<in> set (archetype_entities a). fhm_find (s_entity_archetype_map w') e = Some B')"
    if "fhm_find (s_component_archetype_map w') B' = Some a" for B' a
  proof (cases "B' = B")
    case True
    with that find have "a = a'" by simp
    with True a' ents show ?thesis by simp
  next
    case False
    with that find have "fhm_find (s_component_archetype_map w) B' = Some a" by simp
    with old reg_old show ?thesis by blast
  qed
  moreover have "set (s_component_trie w') = set (fhm_keys (s_component_archetype_map w'))"
    using old keys(2) trie(2) by simp
  ultimately show ?thesis
    unfolding world_inv_iff using keys(1) trie(1) reg_new by blast
qed

lemma archetype_entities_uniform:
  assumes "\<forall>(c, col) \<in> set a. fhm_keys col = ks"
  shows "archetype_entities a = (if a = [] then [] else ks)"
  using assms by (cases a) (auto simp: archetype_entities_def)

lemma archetype_inv_update:
  assumes inv: "archetype_inv B a" and keys: "map fst a' = map fst a"
    and cols: "\<forall>c col'. map_of a' c = Some col' \<longrightarrow> fhm_keys col' = ks'"
    and dist: "distinct ks'"
  shows "archetype_inv B a' \<and> set (archetype_entities a') \<subseteq> set ks'"
proof -
  from inv keys have d: "distinct (map fst a')"
    by (simp add: archetype_inv_def)
  then have uniform: "\<forall>(c, col) \<in> set a'. fhm_keys col = ks'"
    using cols by auto
  from archetype_entities_uniform [OF uniform]
  have ents: "archetype_entities a' = (if a' = [] then [] else ks')" .
  with uniform dist have "distinct (archetype_entities a')"
    and "\<forall>(c, col) \<in> set a'. fhm_keys col = archetype_entities a'"
    by auto
  with inv keys ents show ?thesis
    by (auto simp: archetype_inv_def)
qed

lemma live_preserved:
  assumes live: "live w h"
    and reg: "fhm_find (s_entity_archetype_map w') (m_id h) = fhm_find (s_entity_archetype_map w) (m_id h)"
    and rows: "\<And>a. fhm_find (s_component_archetype_map w)
                       (ecs_component_mask (components_type (derived_type h))) = Some a
                 \<Longrightarrow> \<exists>a'. fhm_find (s_component_archetype_map w')
                              (ecs_component_mask (components_type (derived_type h))) = Some a'
                        \<and> (\<forall>c col. map_of a c = Some col \<longrightarrow> m_id h \<in> set (fhm_keys col)
                              \<longrightarrow> (\<exists>col'. map_of a' c = Some col' \<and> m_id h \<in> set (fhm_keys col')))"
  shows "live w' h"
proof -
  let ?B = "ecs_component_mask (components_type (derived_type h))"
  from live obtain a where
    a: "fhm_find (s_component_archetype_map w) ?B = Some a" and
    cells: "\<forall>c \<in> set (components_type (derived_type h)).
              \<exists>col. map_of a c = Some col \<and> m_id h \<in> set (fhm_keys col)"
    by (fastforce simp: live_def has_row_def list_all_iff split: option.splits)
  from rows [OF a] obtain a' where
    a': "fhm_find (s_component_archetype_map w') ?B = Some a'" and
    keep: "\<forall>c col. map_of a c = Some col \<longrightarrow> m_id h \<in> set (fhm_keys col)
              \<longrightarrow> (\<exists>col'. map_of a' c = Some col' \<and> m_id h \<in> set (fhm_keys col'))"
    by blast
  from cells keep have "\<forall>c \<in> set (components_type (derived_type h)).
              \<exists>col'. map_of a' c = Some col' \<and> m_id h \<in> set (fhm_keys col')"
    by blast
  then have "has_row w' h"
    unfolding has_row_def using a' by (fastforce simp: list_all_iff split: option.splits)
  moreover from live reg have "registered w' h"
    by (simp add: live_def registered_def)
  ultimately show ?thesis
    by (simp add: live_def)
qed

lemma Entity_Set_result:
  assumes "fhm_find (s_entity_archetype_map w) (m_id e) = Some B"
    and "fhm_find (s_component_archetype_map w) B = Some a"
    and "map_of a c = Some col"
  shows "Entity_Set e c v w =
     Inr (w\<lparr>s_component_archetype_map :=
              fhm_assign (s_component_archetype_map w) B
                (AList.update c (fhm_assign col (m_id e) v) a)\<rparr>)"
  using assms
  by (simp add: Entity_Set_def fhm_index_found TypeErasedArchetype_Set_def Archetype_Set_def)

lemma fhm_assign_keys_present:
  "k \<in> set (fhm_keys col) \<Longrightarrow> fhm_keys (fhm_assign col k v) = fhm_keys col"
  by (rule fhm_assign_keys)

lemma world_inv_store_assign:
  assumes inv: "world_inv w"
    and a: "fhm_find (s_component_archetype_map w) B = Some a"
    and a': "archetype_inv B a'"
    and ents: "set (archetype_entities a') \<subseteq> set (archetype_entities a)"
  shows "world_inv (w\<lparr>s_component_archetype_map := fhm_assign (s_component_archetype_map w) B a'\<rparr>)"
proof -
  note old = inv [unfolded world_inv_iff]
  from a have B: "B \<in> set (fhm_keys (s_component_archetype_map w))"
    using fhm_find_None_keys [of "s_component_archetype_map w" B] by simp
  with old have Bt: "B \<in> set (s_component_trie w)"
    by simp
  show ?thesis
  proof (rule world_inv_step [OF inv, where B = B and a' = a'])
    show "archetype_inv B a'" by (rule a')
    show "\<forall>e\<in>set (archetype_entities a').
       fhm_find (s_entity_archetype_map
           (w\<lparr>s_component_archetype_map := fhm_assign (s_component_archetype_map w) B a'\<rparr>)) e = Some B"
      using old a ents by auto
  qed (use old B Bt in \<open>auto simp: fhm_assign_keys fhm_find_assign insert_absorb\<close>)
qed

lemma world_inv_Set:
  assumes inv: "world_inv w" and live: "live w e" and c: "has_component (derived_type e) c"
    and run: "Entity_Set e c v w = Inr w'"
  shows "world_inv w'"
    and "s_entity_archetype_map w' = s_entity_archetype_map w"
    and "s_next_entity_id w' = s_next_entity_id w"
    and "live w h \<Longrightarrow> live w' h"
proof -
  let ?B = "ecs_component_mask (components_type (derived_type e))"
  from live c obtain a col where
    reg: "fhm_find (s_entity_archetype_map w) (m_id e) = Some ?B" and
    a: "fhm_find (s_component_archetype_map w) ?B = Some a" and
    col: "map_of a c = Some col" and
    row: "m_id e \<in> set (fhm_keys col)"
    by (rule live_row)
  let ?a' = "AList.update c (fhm_assign col (m_id e) v) a"
  let ?w' = "w\<lparr>s_component_archetype_map := fhm_assign (s_component_archetype_map w) ?B ?a'\<rparr>"
  from run have w': "w' = ?w'"
    by (simp add: Entity_Set_result [OF reg a col])
  note ainv = world_inv_lookup(1) [OF inv a]
  have keys: "map fst ?a' = map fst a"
    by (rule update_keys_present [OF col])
  have cols: "fhm_keys col' = archetype_entities a" if "map_of ?a' c' = Some col'" for c' col'
  proof (cases "c' = c")
    case True
    with that have "col' = fhm_assign col (m_id e) v"
      by (simp add: update_conv')
    then show ?thesis
      using row archetype_inv_columns [OF ainv col] by (simp add: fhm_assign_keys)
  next
    case False
    with that have "map_of a c' = Some col'"
      by (simp add: update_conv')
    then show ?thesis
      by (rule archetype_inv_columns [OF ainv])
  qed
  from ainv have "distinct (archetype_entities a)"
    by (simp add: archetype_inv_def)
  with archetype_inv_update [OF ainv keys, of "archetype_entities a"] cols
  have a': "archetype_inv ?B ?a'" "set (archetype_entities ?a') \<subseteq> set (archetype_entities a)"
    by blast+
  show "world_inv w'"
    unfolding w' by (rule world_inv_store_assign [OF inv a a'])
  show "s_entity_archetype_map w' = s_entity_archetype_map w"
    and "s_next_entity_id w' = s_next_entity_id w"
    by (simp_all add: w')
  show "live w' h" if h: "live w h"
  proof (rule live_preserved [OF h])
    show "fhm_find (s_entity_archetype_map w') (m_id h) = fhm_find (s_entity_archetype_map w) (m_id h)"
      by (simp add: w')
  next
    fix ah
    assume ah: "fhm_find (s_component_archetype_map w)
                  (ecs_component_mask (components_type (derived_type h))) = Some ah"
    show "\<exists>a'. fhm_find (s_component_archetype_map w')
                  (ecs_component_mask (components_type (derived_type h))) = Some a'
            \<and> (\<forall>c col. map_of ah c = Some col \<longrightarrow> m_id h \<in> set (fhm_keys col)
                  \<longrightarrow> (\<exists>col'. map_of a' c = Some col' \<and> m_id h \<in> set (fhm_keys col')))"
    proof (cases "ecs_component_mask (components_type (derived_type h)) = ?B")
      case True
      with ah a have "ah = a" by simp
      have "\<exists>col'. map_of ?a' c' = Some col' \<and> m_id h \<in> set (fhm_keys col')"
        if "map_of a c' = Some col0" "m_id h \<in> set (fhm_keys col0)" for c' col0
      proof (cases "c' = c")
        case True
        with that col have "col0 = col" by simp
        with that row have "m_id h \<in> set (fhm_keys (fhm_assign col (m_id e) v))"
          by (simp add: fhm_assign_keys)
        with True show ?thesis
          by (simp add: update_conv')
      next
        case False
        with that show ?thesis
          by (simp add: update_conv')
      qed
      then show ?thesis
        using True \<open>ah = a\<close> by (simp add: w' fhm_find_assign)
    next
      case False
      with ah show ?thesis
        by (auto simp: w' fhm_find_assign)
    qed
  qed
qed


lemma Entity_dtor_result:
  assumes "live w e"
  obtains a a' where
    "fhm_find (s_component_archetype_map w)
       (ecs_component_mask (components_type (derived_type e))) = Some a"
    "Entity_dtor e w =
       Inr (w\<lparr>s_component_archetype_map :=
                fhm_assign (s_component_archetype_map w)
                  (ecs_component_mask (components_type (derived_type e))) a'\<rparr>)"
    "map fst a' = map fst a"
    "\<forall>c. map_of a' c =
       (if c \<in> set (components_type (derived_type e))
        then map_option (\<lambda>col. fhm_erase col (m_id e)) (map_of a c) else map_of a c)"
proof -
  let ?B = "ecs_component_mask (components_type (derived_type e))"
  let ?cs = "components_type (derived_type e)"
  from assms have reg: "fhm_find (s_entity_archetype_map w) (m_id e) = Some ?B"
    by (simp add: live_def registered_def)
  from assms obtain a where
    arch: "fhm_find (s_component_archetype_map w) ?B = Some a" and
    cols: "\<forall>c \<in> set ?cs. map_of a c \<noteq> None"
    by (auto simp: live_def has_row_def list_all_iff split: option.splits)
  from drop_row_result [OF cols, of "m_id e"] obtain a' where
    run: "drop_row ?cs a (m_id e) = Inr a'" and
    keys: "map fst a' = map fst a" and
    cells: "\<forall>c. map_of a' c =
              (if c \<in> set ?cs then map_option (\<lambda>col. fhm_erase col (m_id e)) (map_of a c)
               else map_of a c)"
    by blast
  have "Entity_dtor e w =
      Inr (w\<lparr>s_component_archetype_map := fhm_assign (s_component_archetype_map w) ?B a'\<rparr>)"
    by (simp add: Entity_dtor_def Unregister_def Let_def fhm_index_found [OF reg]
        fhm_index_found [OF arch] run)
  with arch keys cells show thesis
    using that by blast
qed

lemma fhm_erase_keys_eq: "fhm_keys (fhm_erase col k) = removeAll k (fhm_keys col)"
  by (simp add: fhm_keys_def fhm_erase_def delete_keys)

lemma world_inv_dtor:
  assumes inv: "world_inv w" and live: "live w e" and ok: "entity_type_ok (derived_type e)"
    and run: "Entity_dtor e w = Inr w'"
  shows "world_inv w'"
    and "s_entity_archetype_map w' = s_entity_archetype_map w"
    and "s_next_entity_id w' = s_next_entity_id w"
    and "live w h \<Longrightarrow> m_id h \<noteq> m_id e \<Longrightarrow> live w' h"
proof -
  let ?B = "ecs_component_mask (components_type (derived_type e))"
  let ?cs = "components_type (derived_type e)"
  from live obtain a a' where
    a: "fhm_find (s_component_archetype_map w) ?B = Some a" and
    dtor: "Entity_dtor e w =
       Inr (w\<lparr>s_component_archetype_map := fhm_assign (s_component_archetype_map w) ?B a'\<rparr>)" and
    keys: "map fst a' = map fst a" and
    cells: "\<forall>c. map_of a' c =
       (if c \<in> set ?cs then map_option (\<lambda>col. fhm_erase col (m_id e)) (map_of a c)
        else map_of a c)"
    by (rule Entity_dtor_result)
  from run dtor have w': "w' = w\<lparr>s_component_archetype_map :=
                                  fhm_assign (s_component_archetype_map w) ?B a'\<rparr>"
    by simp
  note ainv = world_inv_lookup(1) [OF inv a]
  from ok have "component_traits_ok ?cs"
    by (simp add: entity_type_ok_def)
  from world_inv_columns [OF inv this a] have all: "set (map fst a) = set ?cs" .
  have erased: "\<exists>col. map_of a c' = Some col \<and> col' = fhm_erase col (m_id e)"
    if "map_of a' c' = Some col'" for c' col'
  proof -
    from that have "c' \<in> set (map fst a')"
      by (auto dest: map_of_SomeD intro: rev_image_eqI)
    with keys all have "c' \<in> set ?cs" by simp
    with that cells [rule_format, of c'] show ?thesis
      by auto
  qed
  let ?ks' = "removeAll (m_id e) (archetype_entities a)"
  have cols: "fhm_keys col' = ?ks'" if "map_of a' c' = Some col'" for c' col'
  proof -
    from erased [OF that] obtain col where
      "map_of a c' = Some col" "col' = fhm_erase col (m_id e)"
      by blast
    with archetype_inv_columns [OF ainv] show ?thesis
      by (simp add: fhm_erase_keys_eq)
  qed
  from ainv have "distinct ?ks'"
    by (simp add: archetype_inv_def distinct_removeAll)
  with archetype_inv_update [OF ainv keys, of ?ks'] cols
  have a': "archetype_inv ?B a'" "set (archetype_entities a') \<subseteq> set (archetype_entities a)"
    by auto
  show "world_inv w'"
    unfolding w' by (rule world_inv_store_assign [OF inv a a'])
  show "s_entity_archetype_map w' = s_entity_archetype_map w"
    and "s_next_entity_id w' = s_next_entity_id w"
    by (simp_all add: w')
  show "live w' h" if h: "live w h" and other: "m_id h \<noteq> m_id e"
  proof (rule live_preserved [OF h])
    show "fhm_find (s_entity_archetype_map w') (m_id h) = fhm_find (s_entity_archetype_map w) (m_id h)"
      by (simp add: w')
  next
    fix ah
    assume ah: "fhm_find (s_component_archetype_map w)
                  (ecs_component_mask (components_type (derived_type h))) = Some ah"
    show "\<exists>a'. fhm_find (s_component_archetype_map w')
                  (ecs_component_mask (components_type (derived_type h))) = Some a'
            \<and> (\<forall>c col. map_of ah c = Some col \<longrightarrow> m_id h \<in> set (fhm_keys col)
                  \<longrightarrow> (\<exists>col'. map_of a' c = Some col' \<and> m_id h \<in> set (fhm_keys col')))"
    proof (cases "ecs_component_mask (components_type (derived_type h)) = ?B")
      case True
      with ah a have "ah = a" by simp
      have "\<exists>col'. map_of a' c' = Some col' \<and> m_id h \<in> set (fhm_keys col')"
        if "map_of a c' = Some col0" "m_id h \<in> set (fhm_keys col0)" for c' col0
        using that other cells [rule_format, of c'] by (auto simp: fhm_erase_keys_eq)
      then show ?thesis
        using True \<open>ah = a\<close> by (simp add: w' fhm_find_assign)
    next
      case False
      with ah show ?thesis
        by (auto simp: w' fhm_find_assign)
    qed
  qed
qed

lemma world_inv_init: "world_inv World_init"
  by (simp add: world_inv_def World_init_def fhm_keys_def)

lemma no_wrap_less:
  assumes "x \<noteq> (- 1 :: 64 word)"
  shows "x < x + 1"
proof -
  have "unat x < 2 ^ 64"
    using unsigned_less [of x] by simp
  moreover have "unat x \<noteq> 2 ^ 64 - 1"
  proof
    assume "unat x = 2 ^ 64 - 1"
    moreover have "unat (- 1 :: 64 word) = 2 ^ 64 - 1"
      by (simp add: unsigned_minus_1_eq_mask mask_eq_exp_minus_1)
    ultimately have "unat x = unat (- 1 :: 64 word)"
      by simp
    then have "x = - 1"
      by (simp only: word_unat_eq_iff)
    with assms show False by simp
  qed
  ultimately have "unat x + unat (1 :: 64 word) < 2 ^ 64"
    by simp
  then have "unat (x + 1) = unat x + 1"
    by (simp add: unat_add_lem [THEN iffD1])
  then show ?thesis
    by (simp add: word_less_nat_alt)
qed


lemma fhm_assign_keys_absent:
  "k \<notin> set (fhm_keys col) \<Longrightarrow> fhm_keys (fhm_assign col k v) = fhm_keys col @ [k]"
  by (simp add: fhm_keys_def fhm_assign_def update_keys)

lemma Archetype_new_keys: "map fst (Archetype_new cs) = cs"
  by (simp add: Archetype_new_def comp_def)

lemma Archetype_new_entities: "archetype_entities (Archetype_new cs) = []"
  by (cases cs) (simp_all add: Archetype_new_def archetype_entities_def fhm_keys_def)

lemma archetype_inv_new:
  assumes "entity_type_ok derived"
  shows "archetype_inv (ecs_component_mask (components_type derived))
           (Archetype_new (components_type derived))"
  using assms unfolding archetype_inv_def Archetype_new_keys Archetype_new_entities
  by (auto simp: entity_type_ok_def Archetype_new_def fhm_keys_def)

lemma world_inv_ctor:
  assumes inv: "world_inv w" and ok: "entity_type_ok derived"
    and nowrap: "s_next_entity_id w \<noteq> - 1"
    and run: "Entity_ctor value_init derived w = Inr (e, w')"
  shows "world_inv w'"
    and "e = \<lparr>m_id = s_next_entity_id w, derived_type = derived\<rparr>"
    and "live w' e"
    and "s_next_entity_id w' = s_next_entity_id w + 1"
    and "s_entity_archetype_map w'
           = s_entity_archetype_map w @ [(s_next_entity_id w, ecs_component_mask (components_type derived))]"
    and "live w h \<Longrightarrow> live w' h"
proof -
  let ?B = "ecs_component_mask (components_type derived)"
  let ?cs = "components_type derived"
  let ?eid = "s_next_entity_id w"
  let ?a0 = "case fhm_find (s_component_archetype_map w) ?B of
               None \<Rightarrow> Archetype_new ?cs | Some a \<Rightarrow> a"
  note old = inv [unfolded world_inv_iff]
  have fresh: "fhm_find (s_entity_archetype_map w) ?eid = None"
    by (rule world_inv_fresh [OF inv])
  have cols0: "\<forall>c \<in> set ?cs. map_of ?a0 c \<noteq> None"
    by (rule world_inv_ctor_columns [OF inv ok])
  from Entity_ctor_post [OF cols0, of value_init] run obtain a' where
    e: "e = \<lparr>m_id = ?eid, derived_type = derived\<rparr>" and
    next': "s_next_entity_id w' = ?eid + 1" and
    reg': "s_entity_archetype_map w' = fhm_insert (s_entity_archetype_map w) (?eid, ?B)" and
    trie': "s_component_trie w' =
             (case fhm_find (s_component_archetype_map w) ?B of
                None \<Rightarrow> trie_Insert (s_component_trie w) ?B | Some a \<Rightarrow> s_component_trie w)" and
    store': "s_component_archetype_map w' =
             (case fhm_find (s_component_archetype_map w) ?B of
                None \<Rightarrow> s_component_archetype_map w @ [(?B, a')]
              | Some a \<Rightarrow> fhm_assign (s_component_archetype_map w) ?B a')" and
    a': "fhm_find (s_component_archetype_map w') ?B = Some a'" and
    keys: "map fst a' = map fst ?a0" and
    cells: "\<forall>c. map_of a' c =
               (if c \<in> set ?cs
                then map_option (\<lambda>col. fhm_assign col ?eid (default_of value_init derived c)) (map_of ?a0 c)
                else map_of ?a0 c)"
    by auto
  have reg_app: "s_entity_archetype_map w' = s_entity_archetype_map w @ [(?eid, ?B)]"
    by (simp add: reg' fhm_insert_absent [OF fresh])
  have reg_find: "fhm_find (s_entity_archetype_map w') x
      = (if x = ?eid then Some ?B else fhm_find (s_entity_archetype_map w) x)" for x
    by (simp add: reg_app fhm_find_append_absent [OF fresh])
  have a0: "archetype_inv ?B ?a0
      \<and> (\<forall>x \<in> set (archetype_entities ?a0). fhm_find (s_entity_archetype_map w) x = Some ?B)
      \<and> set (map fst ?a0) = set ?cs"
  proof (cases "fhm_find (s_component_archetype_map w) ?B")
    case None
    then show ?thesis
      using archetype_inv_new [OF ok] by (simp add: Archetype_new_keys Archetype_new_entities)
  next
    case (Some a)
    from ok have "component_traits_ok ?cs"
      by (simp add: entity_type_ok_def)
    from world_inv_columns [OF inv this Some] world_inv_lookup(1,2) [OF inv Some] Some
    show ?thesis by simp
  qed
  then have ainv0: "archetype_inv ?B ?a0"
    and regs0: "\<forall>x \<in> set (archetype_entities ?a0). fhm_find (s_entity_archetype_map w) x = Some ?B"
    and all0: "set (map fst ?a0) = set ?cs"
    by blast+
  have new: "?eid \<notin> set (archetype_entities ?a0)"
    using regs0 fresh by auto
  let ?ks' = "archetype_entities ?a0 @ [?eid]"
  have grown: "\<exists>col. map_of ?a0 c' = Some col
                 \<and> col' = fhm_assign col ?eid (default_of value_init derived c')"
    if "map_of a' c' = Some col'" for c' col'
  proof -
    from that have "c' \<in> set (map fst a')"
      by (auto dest: map_of_SomeD intro: rev_image_eqI)
    with keys all0 have "c' \<in> set ?cs" by simp
    with that cells [rule_format, of c'] show ?thesis
      by auto
  qed
  have cols: "fhm_keys col' = ?ks'" if "map_of a' c' = Some col'" for c' col'
  proof -
    from grown [OF that] obtain col where
      col: "map_of ?a0 c' = Some col" "col' = fhm_assign col ?eid (default_of value_init derived c')"
      by blast
    from archetype_inv_columns [OF ainv0 col(1)] have "fhm_keys col = archetype_entities ?a0" .
    with new col(2) show ?thesis
      by (simp add: fhm_assign_keys_absent)
  qed
  from ainv0 new have "distinct ?ks'"
    by (simp add: archetype_inv_def)
  with archetype_inv_update [OF ainv0 keys, of ?ks'] cols
  have ainv': "archetype_inv ?B a'" and ents': "set (archetype_entities a') \<subseteq> set ?ks'"
    by auto
  have less: "?eid < ?eid + 1"
    by (rule no_wrap_less [OF nowrap])
  have store_facts:
    "distinct (fhm_keys (s_component_archetype_map w'))
     \<and> set (fhm_keys (s_component_archetype_map w'))
          = insert ?B (set (fhm_keys (s_component_archetype_map w)))
     \<and> distinct (s_component_trie w')
     \<and> set (s_component_trie w') = insert ?B (set (s_component_trie w))"
  proof (cases "fhm_find (s_component_archetype_map w) ?B")
    case None
    then have absent: "?B \<notin> set (fhm_keys (s_component_archetype_map w))"
      by (simp add: fhm_find_None_keys)
    with old have "?B \<notin> set (s_component_trie w)"
      by simp
    with None absent old show ?thesis
      by (simp add: store' trie' fhm_keys_append trie_Insert_def)
  next
    case (Some a)
    then have present: "?B \<in> set (fhm_keys (s_component_archetype_map w))"
      using fhm_find_None_keys [of "s_component_archetype_map w" ?B] by simp
    with old have "?B \<in> set (s_component_trie w)"
      by simp
    with Some present old show ?thesis
      by (simp add: store' trie' fhm_assign_keys insert_absorb)
  qed
  have find': "fhm_find (s_component_archetype_map w') B'
          = (if B' = ?B then Some a' else fhm_find (s_component_archetype_map w) B')" for B'
  proof (cases "fhm_find (s_component_archetype_map w) ?B")
    case None
    then show ?thesis
      by (simp add: store' fhm_find_append_absent)
  next
    case (Some a)
    then show ?thesis
      by (simp add: store' fhm_find_assign)
  qed
  show inv': "world_inv w'"
  proof (rule world_inv_step [OF inv, where B = ?B and a' = a'])
    show "archetype_inv ?B a'" by (rule ainv')
    show "\<forall>x\<in>set (archetype_entities a'). fhm_find (s_entity_archetype_map w') x = Some ?B"
      using ents' regs0 by (auto simp: reg_find)
    show "\<forall>x B'. fhm_find (s_entity_archetype_map w) x = Some B'
             \<longrightarrow> fhm_find (s_entity_archetype_map w') x = Some B'"
      using fresh by (auto simp: reg_find)
    show "distinct (fhm_keys (s_component_archetype_map w'))"
      and "set (fhm_keys (s_component_archetype_map w'))
            = insert ?B (set (fhm_keys (s_component_archetype_map w)))"
      and "distinct (s_component_trie w')"
      and "set (s_component_trie w') = insert ?B (set (s_component_trie w))"
      using store_facts by blast+
    show "\<forall>B'. fhm_find (s_component_archetype_map w') B'
            = (if B' = ?B then Some a' else fhm_find (s_component_archetype_map w) B')"
      using find' by blast
    have "x < ?eid + 1" if "x < ?eid" for x
      using that less by simp
    then show "\<forall>(x, B') \<in> set (s_entity_archetype_map w').
            B' \<in> set (fhm_keys (s_component_archetype_map w')) \<and> x < s_next_entity_id w'"
      using old less store_facts by (auto simp: reg_app next')
  qed
  show "e = \<lparr>m_id = ?eid, derived_type = derived\<rparr>" by (rule e)
  show "s_next_entity_id w' = ?eid + 1" by (rule next')
  show "s_entity_archetype_map w' = s_entity_archetype_map w @ [(?eid, ?B)]" by (rule reg_app)
  have "\<exists>col'. map_of a' c = Some col' \<and> ?eid \<in> set (fhm_keys col')"
    if "c \<in> set ?cs" for c
  proof -
    from that cols0 obtain col where "map_of ?a0 c = Some col" by blast
    with that cells [rule_format, of c] show ?thesis
      by (simp add: fhm_assign_key)
  qed
  then have "has_row w' e"
    unfolding has_row_def e using a' by (fastforce simp: list_all_iff split: option.splits)
  then show "live w' e"
    by (simp add: live_def registered_def e reg_find)
  show "live w' h" if h: "live w h"
  proof (rule live_preserved [OF h])
    from h have "fhm_find (s_entity_archetype_map w) (m_id h) \<noteq> None"
      by (simp add: live_def registered_def)
    with fresh show "fhm_find (s_entity_archetype_map w') (m_id h)
        = fhm_find (s_entity_archetype_map w) (m_id h)"
      by (auto simp: reg_find)
  next
    fix ah
    assume ah: "fhm_find (s_component_archetype_map w)
                  (ecs_component_mask (components_type (derived_type h))) = Some ah"
    show "\<exists>a'. fhm_find (s_component_archetype_map w')
                  (ecs_component_mask (components_type (derived_type h))) = Some a'
            \<and> (\<forall>c col. map_of ah c = Some col \<longrightarrow> m_id h \<in> set (fhm_keys col)
                  \<longrightarrow> (\<exists>col'. map_of a' c = Some col' \<and> m_id h \<in> set (fhm_keys col')))"
    proof (cases "ecs_component_mask (components_type (derived_type h)) = ?B")
      case True
      with ah have a0_ah: "?a0 = ah" by simp
      have "\<exists>col'. map_of a' c' = Some col' \<and> m_id h \<in> set (fhm_keys col')"
        if "map_of ah c' = Some col0" "m_id h \<in> set (fhm_keys col0)" for c' col0
      proof (cases "c' \<in> set ?cs")
        case True
        with that cells [rule_format, of c'] a0_ah
        have "map_of a' c' = Some (fhm_assign col0 ?eid (default_of value_init derived c'))"
          by simp
        moreover have "m_id h \<in> set (fhm_keys (fhm_assign col0 ?eid (default_of value_init derived c')))"
          using that(2) dom_update [of ?eid "default_of value_init derived c'" col0]
          by (auto simp: fhm_keys_def fhm_assign_def)
        ultimately show ?thesis by blast
      next
        case False
        with that cells [rule_format, of c'] a0_ah show ?thesis
          by simp
      qed
      then show ?thesis
        using True by (simp add: find')
    next
      case False
      with ah show ?thesis
        by (auto simp: find')
    qed
  qed
qed


lemma fhm_index_length: "length m \<le> length (fst (fhm_index d m k))"
  by (simp add: fhm_index_def split: option.splits)

lemma fhm_insert_length: "length m \<le> length (fhm_insert m kv)"
  by (simp add: fhm_insert_def split: option.splits)

lemma Entity_Get_registry:
  assumes "Entity_Get value_init e c w = Inr (v, w')"
  shows "length (s_entity_archetype_map w) \<le> length (s_entity_archetype_map w')"
proof -
  obtain registry B where ix: "fhm_index 0 (s_entity_archetype_map w) (m_id e) = (registry, B)"
    by (cases "fhm_index 0 (s_entity_archetype_map w) (m_id e)")
  with assms have "s_entity_archetype_map w' = registry"
    by (auto simp: Entity_Get_def split: prod.splits sum.splits)
  with fhm_index_length [of "s_entity_archetype_map w" 0 "m_id e"] ix show ?thesis
    by simp
qed

lemma Entity_Set_registry:
  assumes "Entity_Set e c v w = Inr w'"
  shows "length (s_entity_archetype_map w) \<le> length (s_entity_archetype_map w')"
proof -
  obtain registry B where ix: "fhm_index 0 (s_entity_archetype_map w) (m_id e) = (registry, B)"
    by (cases "fhm_index 0 (s_entity_archetype_map w) (m_id e)")
  with assms have "s_entity_archetype_map w' = registry"
    by (auto simp: Entity_Set_def split: prod.splits sum.splits)
  with fhm_index_length [of "s_entity_archetype_map w" 0 "m_id e"] ix show ?thesis
    by simp
qed

lemma HasComponent_registry:
  assumes "HasComponent e c w = (b, w')"
  shows "length (s_entity_archetype_map w) \<le> length (s_entity_archetype_map w')"
proof -
  obtain registry B where ix: "fhm_index 0 (s_entity_archetype_map w) (m_id e) = (registry, B)"
    by (cases "fhm_index 0 (s_entity_archetype_map w) (m_id e)")
  with assms have "s_entity_archetype_map w' = registry"
    by (auto simp: HasComponent_def Let_def)
  with fhm_index_length [of "s_entity_archetype_map w" 0 "m_id e"] ix show ?thesis
    by simp
qed

lemma Entity_dtor_registry:
  assumes "Entity_dtor e w = Inr w'"
  shows "length (s_entity_archetype_map w) \<le> length (s_entity_archetype_map w')"
proof -
  obtain registry B where ix: "fhm_index 0 (s_entity_archetype_map w) (m_id e) = (registry, B)"
    by (cases "fhm_index 0 (s_entity_archetype_map w) (m_id e)")
  with assms have "s_entity_archetype_map w' = registry"
    by (auto simp: Entity_dtor_def Unregister_def Let_def split: prod.splits sum.splits)
  with fhm_index_length [of "s_entity_archetype_map w" 0 "m_id e"] ix show ?thesis
    by simp
qed

lemma Entity_ctor_registry:
  assumes "Entity_ctor value_init derived w = Inr (e, w')"
  shows "s_entity_archetype_map w'
           = fhm_insert (s_entity_archetype_map w)
               (s_next_entity_id w, ecs_component_mask (components_type derived))"
proof -
  let ?B = "ecs_component_mask (components_type derived)"
  let ?w0 = "w\<lparr>s_next_entity_id := s_next_entity_id w + 1\<rparr>"
  let ?ent = "\<lparr>m_id = s_next_entity_id w, derived_type = derived\<rparr>"
  from assms have reg: "Register value_init ?ent ?B ?w0 = Inr w'"
    by (auto simp: Entity_ctor_unfold split: sum.splits)
  show ?thesis
  proof (cases "fhm_find (s_component_archetype_map ?w0) ?B")
    case None
    from reg [unfolded Register_None [OF None]] show ?thesis
      by (auto split: sum.splits)
  next
    case (Some a)
    from reg [unfolded Register_Some [OF Some]] show ?thesis
      by (auto split: sum.splits)
  qed
qed

lemma Entity_ctor_registry_length:
  assumes "Entity_ctor value_init derived w = Inr (e, w')"
  shows "length (s_entity_archetype_map w) \<le> length (s_entity_archetype_map w')"
  unfolding Entity_ctor_registry [OF assms] by (rule fhm_insert_length)

lemma HasComponent_registered:
  assumes "registered w e"
  shows "snd (HasComponent e c w) = w"
proof -
  from assms have "fhm_find (s_entity_archetype_map w) (m_id e)
      = Some (ecs_component_mask (components_type (derived_type e)))"
    by (simp add: registered_def)
  then show ?thesis
    by (simp add: HasComponent_def fhm_index_found Let_def)
qed

lemma Entity_Get_live:
  assumes "live w e" "has_component (derived_type e) c"
    and "Entity_Get value_init e c w = Inr (v, w')"
  shows "w' = w"
proof -
  from assms(1,2) obtain a col where
    reg: "fhm_find (s_entity_archetype_map w) (m_id e)
            = Some (ecs_component_mask (components_type (derived_type e)))" and
    a: "fhm_find (s_component_archetype_map w)
            (ecs_component_mask (components_type (derived_type e))) = Some a" and
    col: "map_of a c = Some col" and
    row: "m_id e \<in> set (fhm_keys col)"
    by (rule live_row)
  from row have "map_of col (m_id e) \<noteq> None"
    by (simp add: fhm_keys_def map_of_eq_None_iff)
  then obtain x where "map_of col (m_id e) = Some x"
    by blast
  from Entity_Get_found [OF reg a col this, of value_init] assms(3) show ?thesis
    by simp
qed

lemma unat_max_word64: "unat (- 1 :: 64 word) = 2 ^ 64 - 1"
  by (simp add: unsigned_minus_1_eq_mask mask_eq_exp_minus_1)

text \<open>
  The consistency assumed of the world in the properties of construction and of views is
  what a program that moves no handle finds: every world it reaches whose registry has
  fewer than \<open>2^64\<close> entries (fewer than \<open>2^64\<close> entities were constructed, so the id
  counter has not wrapped) is consistent, the handles held are live and have pairwise
  different ids, and the counter equals the number of registry entries. After a move the
  destructor of one of the two handles drops the row that the other handle still refers to,
  so nothing of the kind holds for the handles of a program that moves them.
\<close>

lemma reachable_unmoved_reachable:
  "reachable_unmoved value_init w handles \<Longrightarrow> reachable value_init w handles"
  by (induction rule: reachable_unmoved.induct) (blast intro: reachable.intros)+

lemma reachable_unmoved_consistent:
  assumes "reachable_unmoved value_init w handles"
    and "length (s_entity_archetype_map w) < 2 ^ 64"
  shows "world_inv w \<and> handles_inv w handles
       \<and> unat (s_next_entity_id w) = length (s_entity_archetype_map w)"
  using assms
proof (induction rule: reachable_unmoved.induct)
  case start
  show ?case
    by (simp add: world_inv_init handles_inv_def) (simp add: World_init_def)
next
  case (construct w handles derived e w')
  from Entity_ctor_registry_length [OF construct.hyps(3)] construct.prems
  have "length (s_entity_archetype_map w) < 2 ^ 64"
    by simp
  with construct.IH have inv: "world_inv w" and hs: "handles_inv w handles"
    and cnt: "unat (s_next_entity_id w) = length (s_entity_archetype_map w)"
    by simp_all
  have "s_entity_archetype_map w'
      = s_entity_archetype_map w
          @ [(s_next_entity_id w, ecs_component_mask (components_type derived))]"
    unfolding Entity_ctor_registry [OF construct.hyps(3)]
    by (rule fhm_insert_absent [OF world_inv_fresh [OF inv]])
  with construct.prems cnt have small: "unat (s_next_entity_id w) < 2 ^ 64 - 1"
    by simp
  then have nowrap: "s_next_entity_id w \<noteq> - 1"
    using unat_max_word64 by auto
  note step = world_inv_ctor [OF inv construct.hyps(2) nowrap construct.hyps(3)]
  have "m_id h \<noteq> m_id e" if "h \<in> set handles" for h
  proof -
    from that hs have "registered w h"
      by (simp add: handles_inv_def live_def)
    then have "fhm_find (s_entity_archetype_map w) (m_id h) \<noteq> None"
      by (simp add: registered_def)
    with world_inv_fresh [OF inv] step(2) show ?thesis
      by auto
  qed
  then have "m_id e \<notin> m_id ` set handles"
    by (metis imageE)
  with hs step(3,6) construct.hyps(2) step(2) have "handles_inv w' (e # handles)"
    by (auto simp: handles_inv_def)
  moreover have "unat (s_next_entity_id w') = length (s_entity_archetype_map w')"
  proof -
    have "unat (s_next_entity_id w) + unat (1 :: 64 word) < 2 ^ 64"
      using small by simp
    then have "unat (s_next_entity_id w + 1) = unat (s_next_entity_id w) + 1"
      by (simp add: unat_add_lem [THEN iffD1])
    then show ?thesis
      by (simp add: step(4,5) cnt)
  qed
  ultimately show ?case
    using step(1) by simp
next
  case (get w handles e c v w')
  from Entity_Get_registry [OF get.hyps(4)] get.prems
  have "length (s_entity_archetype_map w) < 2 ^ 64"
    by simp
  with get.IH have inv: "world_inv w" and hs: "handles_inv w handles"
    and cnt: "unat (s_next_entity_id w) = length (s_entity_archetype_map w)"
    by simp_all
  from hs get.hyps(2) have "live w e"
    by (simp add: handles_inv_def)
  from Entity_Get_live [OF this get.hyps(3,4)] inv hs cnt show ?case
    by simp
next
  case (set w handles e c v w')
  from Entity_Set_registry [OF set.hyps(4)] set.prems
  have "length (s_entity_archetype_map w) < 2 ^ 64"
    by simp
  with set.IH have inv: "world_inv w" and hs: "handles_inv w handles"
    and cnt: "unat (s_next_entity_id w) = length (s_entity_archetype_map w)"
    by simp_all
  from hs set.hyps(2) have "live w e"
    by (simp add: handles_inv_def)
  note step = world_inv_Set [OF inv this set.hyps(3,4)]
  from hs step(4) have "handles_inv w' handles"
    by (simp add: handles_inv_def)
  with step(1,2,3) cnt show ?case
    by simp
next
  case (has w handles e c b w')
  from HasComponent_registry [OF has.hyps(3)] has.prems
  have "length (s_entity_archetype_map w) < 2 ^ 64"
    by simp
  with has.IH have inv: "world_inv w" and hs: "handles_inv w handles"
    and cnt: "unat (s_next_entity_id w) = length (s_entity_archetype_map w)"
    by simp_all
  from hs has.hyps(2) have "registered w e"
    by (simp add: handles_inv_def live_def)
  from HasComponent_registered [OF this, of c] has.hyps(3) have "w' = w"
    by simp
  with inv hs cnt show ?case
    by simp
next
  case (destroy w handles e w')
  from Entity_dtor_registry [OF destroy.hyps(3)] destroy.prems
  have "length (s_entity_archetype_map w) < 2 ^ 64"
    by simp
  with destroy.IH have inv: "world_inv w" and hs: "handles_inv w handles"
    and cnt: "unat (s_next_entity_id w) = length (s_entity_archetype_map w)"
    by simp_all
  from hs destroy.hyps(2) have live: "live w e" and ok: "entity_type_ok (derived_type e)"
    by (simp_all add: handles_inv_def)
  note step = world_inv_dtor [OF inv live ok destroy.hyps(3)]
  from hs have d: "distinct (map m_id handles)"
    by (simp add: handles_inv_def)
  then have dh: "distinct handles"
    by (simp add: distinct_map)
  have "live w' h \<and> entity_type_ok (derived_type h)" if "h \<in> set (remove1 e handles)" for h
  proof -
    from that dh have "h \<in> set handles" "h \<noteq> e"
      by auto
    with d destroy.hyps(2) have "m_id h \<noteq> m_id e"
      by (auto simp: distinct_map inj_on_def)
    with hs \<open>h \<in> set handles\<close> step(4) show ?thesis
      by (simp add: handles_inv_def)
  qed
  moreover have "distinct (map m_id (remove1 e handles))"
    using d set_remove1_subset [of e handles]
    by (auto simp: distinct_map intro: inj_on_subset)
  ultimately have "handles_inv w' (remove1 e handles)"
    by (simp add: handles_inv_def)
  with step(1,2,3) cnt show ?case
    by simp
qed


subsection \<open>Uniqueness of entity ids\<close>

text \<open>
  The registry of a reachable world, moves included: while it has fewer than \<open>2^64\<close>
  entries the id counter equals their number, every registered id is below the counter, and
  every handle held has a registered id. The operations on a held handle find its id in the
  registry and leave registry and counter as they are.
\<close>

lemma Entity_ctor_counter:
  assumes "Entity_ctor value_init derived w = Inr (e, w')"
  shows "m_id e = fst (AllocateID w) \<and> s_next_entity_id w' = s_next_entity_id w + 1"
  using assms
  by (auto simp: Entity_ctor_def AllocateID_def Register_def Let_def
      split: sum.splits prod.splits option.splits)

lemma held_Get_registry:
  assumes inv: "index_inv w handles" and h: "e \<in> set handles"
    and run: "Entity_Get value_init e c w = Inr (v, w')"
  shows "s_entity_archetype_map w' = s_entity_archetype_map w
       \<and> s_next_entity_id w' = s_next_entity_id w"
proof -
  from inv h obtain B where
    reg: "fhm_index 0 (s_entity_archetype_map w) (m_id e) = (s_entity_archetype_map w, B)"
    by (rule registered_mask)
  obtain store a where
    ix: "fhm_index TypeErasedArchetype_default (s_component_archetype_map w) B = (store, a)"
    by (cases "fhm_index TypeErasedArchetype_default (s_component_archetype_map w) B")
  from run show ?thesis
    by (auto simp: Entity_Get_def reg ix split: sum.splits)
qed

lemma held_Set_registry:
  assumes inv: "index_inv w handles" and h: "e \<in> set handles"
    and run: "Entity_Set e c v w = Inr w'"
  shows "s_entity_archetype_map w' = s_entity_archetype_map w
       \<and> s_next_entity_id w' = s_next_entity_id w"
proof -
  from inv h obtain B where
    reg: "fhm_index 0 (s_entity_archetype_map w) (m_id e) = (s_entity_archetype_map w, B)"
    by (rule registered_mask)
  obtain store a where
    ix: "fhm_index TypeErasedArchetype_default (s_component_archetype_map w) B = (store, a)"
    by (cases "fhm_index TypeErasedArchetype_default (s_component_archetype_map w) B")
  from run show ?thesis
    by (auto simp: Entity_Set_def reg ix split: sum.splits)
qed

lemma held_Has_registry:
  assumes inv: "index_inv w handles" and h: "e \<in> set handles"
    and run: "HasComponent e c w = (b, w')"
  shows "s_entity_archetype_map w' = s_entity_archetype_map w
       \<and> s_next_entity_id w' = s_next_entity_id w"
proof -
  from inv h obtain B where
    reg: "fhm_index 0 (s_entity_archetype_map w) (m_id e) = (s_entity_archetype_map w, B)"
    by (rule registered_mask)
  from run show ?thesis
    by (auto simp: HasComponent_def reg Let_def)
qed

lemma held_dtor_registry:
  assumes inv: "index_inv w handles" and h: "e \<in> set handles"
    and run: "Entity_dtor e w = Inr w'"
  shows "s_entity_archetype_map w' = s_entity_archetype_map w
       \<and> s_next_entity_id w' = s_next_entity_id w"
proof -
  from inv h obtain B where
    reg: "fhm_index 0 (s_entity_archetype_map w) (m_id e) = (s_entity_archetype_map w, B)"
    by (rule registered_mask)
  obtain store a where
    ix: "fhm_index TypeErasedArchetype_default (s_component_archetype_map w) B = (store, a)"
    by (cases "fhm_index TypeErasedArchetype_default (s_component_archetype_map w) B")
  from run show ?thesis
    by (auto simp: Entity_dtor_def Unregister_def reg ix Let_def split: sum.splits)
qed

lemma reachable_registry:
  assumes "reachable value_init w handles"
    and "length (s_entity_archetype_map w) < 2 ^ 64"
  shows "unat (s_next_entity_id w) = length (s_entity_archetype_map w)
       \<and> (\<forall>k \<in> set (fhm_keys (s_entity_archetype_map w)). unat k < length (s_entity_archetype_map w))
       \<and> (\<forall>h \<in> set handles. m_id h \<in> set (fhm_keys (s_entity_archetype_map w)))"
  using assms
proof (induction rule: reachable.induct)
  case start
  show ?case
    by (simp add: World_init_def fhm_keys_def)
next
  case (construct w handles derived e w')
  let ?B = "ecs_component_mask (components_type derived)"
  from Entity_ctor_registry_length [OF construct.hyps(3)] construct.prems
  have "length (s_entity_archetype_map w) < 2 ^ 64"
    by simp
  with construct.IH have cnt: "unat (s_next_entity_id w) = length (s_entity_archetype_map w)"
    and keys: "\<forall>k \<in> set (fhm_keys (s_entity_archetype_map w)). unat k < length (s_entity_archetype_map w)"
    and held: "\<forall>h \<in> set handles. m_id h \<in> set (fhm_keys (s_entity_archetype_map w))"
    by simp_all
  from keys cnt have "s_next_entity_id w \<notin> set (fhm_keys (s_entity_archetype_map w))"
    by auto
  then have fresh: "fhm_find (s_entity_archetype_map w) (s_next_entity_id w) = None"
    by (simp add: fhm_find_None_keys)
  have reg': "s_entity_archetype_map w' = s_entity_archetype_map w @ [(s_next_entity_id w, ?B)]"
    unfolding Entity_ctor_registry [OF construct.hyps(3)] by (rule fhm_insert_absent [OF fresh])
  from Entity_ctor_counter [OF construct.hyps(3)]
  have e: "m_id e = s_next_entity_id w" and next': "s_next_entity_id w' = s_next_entity_id w + 1"
    by (simp_all add: AllocateID_def)
  from reg' construct.prems cnt have "unat (s_next_entity_id w) + unat (1 :: 64 word) < 2 ^ 64"
    by simp
  then have "unat (s_next_entity_id w + 1) = unat (s_next_entity_id w) + 1"
    by (simp add: unat_add_lem [THEN iffD1])
  with cnt have cnt': "unat (s_next_entity_id w') = length (s_entity_archetype_map w')"
    by (simp add: next' reg')
  have keys': "\<forall>k \<in> set (fhm_keys (s_entity_archetype_map w')). unat k < length (s_entity_archetype_map w')"
    using keys cnt by (auto simp: reg' fhm_keys_append)
  have held': "\<forall>h \<in> set (e # handles). m_id h \<in> set (fhm_keys (s_entity_archetype_map w'))"
    using held e by (auto simp: reg' fhm_keys_append)
  from cnt' keys' held' show ?case
    by (intro conjI)
next
  case (get w handles e c v w')
  from held_Get_registry [OF reachable_index_inv [OF get.hyps(1)] get.hyps(2,4)]
  have "s_entity_archetype_map w' = s_entity_archetype_map w"
    and "s_next_entity_id w' = s_next_entity_id w"
    by simp_all
  with get.IH get.prems show ?case
    by simp
next
  case (set w handles e c v w')
  from held_Set_registry [OF reachable_index_inv [OF set.hyps(1)] set.hyps(2,4)]
  have "s_entity_archetype_map w' = s_entity_archetype_map w"
    and "s_next_entity_id w' = s_next_entity_id w"
    by simp_all
  with set.IH set.prems show ?case
    by simp
next
  case (has w handles e c b w')
  from held_Has_registry [OF reachable_index_inv [OF has.hyps(1)] has.hyps(2,3)]
  have "s_entity_archetype_map w' = s_entity_archetype_map w"
    and "s_next_entity_id w' = s_next_entity_id w"
    by simp_all
  with has.IH has.prems show ?case
    by simp
next
  case (move w handles e)
  then show ?case
    by simp
next
  case (destroy w handles e w')
  from held_dtor_registry [OF reachable_index_inv [OF destroy.hyps(1)] destroy.hyps(2,3)]
  have "s_entity_archetype_map w' = s_entity_archetype_map w"
    and "s_next_entity_id w' = s_next_entity_id w"
    by simp_all
  with destroy.IH destroy.prems show ?case
    by (auto dest: notin_set_remove1)
qed

lemma live_A_alone: "live world_A entity_A"
  by (simp add: live_def registered_def has_row_def model_defs example_defs)

lemma reachable_AA: "reachable value_init0 world_A [entity_A, entity_A]"
proof -
  have "entity_type_ok shape_A"
    by (simp add: entity_type_ok_def component_traits_ok_def kMaxComponents_def example_defs)
  with reachable.start have "reachable value_init0 world_A [entity_A]"
    using ctor_A by (rule reachable.construct)
  then show ?thesis
    by (rule reachable.move) simp
qed

text \<open>
  Claim C6, as stated, fails twice. The counter is a 64-bit unsigned integer and
  \<^verbatim>\<open>fetch_add\<close> wraps around, so call number \<open>2^64 + 1\<close> returns 0, the id already returned
  by the first call, and that id is not greater than the ids returned before it. And a
  handle that is moved leaves two handles with one id: after constructing one entity in the
  empty world and moving its handle, the program holds two live handles with the id 0.
\<close>

theorem entity_ids_counterexample:
  "fst (AllocateID_n (2 ^ 64 + 1) (World_init :: nat World)) ! (2 ^ 64)
     = fst (AllocateID_n (2 ^ 64 + 1) (World_init :: nat World)) ! 0
   \<and> \<not> fst (AllocateID_n (2 ^ 64 + 1) (World_init :: nat World)) ! (2 ^ 64 - 1)
         < fst (AllocateID_n (2 ^ 64 + 1) (World_init :: nat World)) ! (2 ^ 64)
   \<and> reachable value_init0 world_A [entity_A, entity_A]
   \<and> live world_A ([entity_A, entity_A] ! 0) \<and> live world_A ([entity_A, entity_A] ! 1)
   \<and> m_id ([entity_A, entity_A] ! 0) = m_id ([entity_A, entity_A] ! 1)"
proof -
  have wrap: "fst (AllocateID_n (2 ^ 64 + 1) (World_init :: nat World)) ! (2 ^ 64)
     = fst (AllocateID_n (2 ^ 64 + 1) (World_init :: nat World)) ! 0
   \<and> \<not> fst (AllocateID_n (2 ^ 64 + 1) (World_init :: nat World)) ! (2 ^ 64 - 1)
         < fst (AllocateID_n (2 ^ 64 + 1) (World_init :: nat World)) ! (2 ^ 64)"
    unfolding AllocateID_n_ids by (simp add: World_init_def del: upt_Suc)
  have both: "live world_A ([entity_A, entity_A] ! 0) \<and> live world_A ([entity_A, entity_A] ! 1)
      \<and> m_id ([entity_A, entity_A] ! 0) = m_id ([entity_A, entity_A] ! 1)"
    using live_A_alone by simp
  from wrap reachable_AA both show ?thesis
    by blast
qed

text \<open>
  Claim C6, amended. As long as the counter does not wrap, that is for \<open>n\<close> successive calls
  starting from a counter value \<open>s\<close> with \<open>s + n \<le> 2^64\<close> (in particular for the first
  \<open>2^64\<close> calls of a process), each call returns a value strictly greater than every value
  returned before, so no id is returned twice; a constructed handle holds the id returned
  by the call made in its constructor, which advances the counter by one; and in every
  reachable state in which fewer than \<open>2^64\<close> entities have been registered, the id of a
  newly constructed handle differs from the id of every handle the program holds, so two
  handles that come from two constructions never share an id.
\<close>

theorem AllocateID_increasing:
  assumes "unat (s_next_entity_id w) + n \<le> 2 ^ 64"
  shows "sorted_wrt (<) (fst (AllocateID_n n w))
       \<and> distinct (fst (AllocateID_n n w))
       \<and> (\<forall>derived e w'. Entity_ctor value_init derived w = Inr (e, w')
            \<longrightarrow> m_id e = fst (AllocateID w) \<and> s_next_entity_id w' = s_next_entity_id w + 1)
       \<and> (\<forall>u handles derived e u'. reachable value_init u handles
            \<longrightarrow> length (s_entity_archetype_map u) < 2 ^ 64
            \<longrightarrow> Entity_ctor value_init derived u = Inr (e, u')
            \<longrightarrow> m_id e \<notin> m_id ` set handles)"
proof -
  have sorted: "sorted_wrt (<) (fst (AllocateID_n n w))"
    unfolding AllocateID_n_ids by (rule sorted_ids [OF assms])
  then have dist: "distinct (fst (AllocateID_n n w))"
    by (simp add: strict_sorted_iff)
  have fresh: "m_id e \<notin> m_id ` set handles"
    if r: "reachable value_init u handles" and len: "length (s_entity_archetype_map u) < 2 ^ 64"
      and run: "Entity_ctor value_init derived u = Inr (e, u')"
    for u handles derived e u'
  proof
    assume "m_id e \<in> m_id ` set handles"
    then obtain h where h: "h \<in> set handles" "m_id h = m_id e"
      by auto
    note reg = reachable_registry [OF r len]
    from reg h(1) have "m_id h \<in> set (fhm_keys (s_entity_archetype_map u))"
      by simp
    with reg have "unat (m_id h) < unat (s_next_entity_id u)"
      by simp
    moreover from Entity_ctor_counter [OF run] have "m_id e = s_next_entity_id u"
      by (simp add: AllocateID_def)
    ultimately show False
      using h(2) by simp
  qed
  show ?thesis
  proof (intro conjI allI impI)
    show "sorted_wrt (<) (fst (AllocateID_n n w))" by (rule sorted)
    show "distinct (fst (AllocateID_n n w))" by (rule dist)
    show "m_id e = fst (AllocateID w)" if "Entity_ctor value_init derived w = Inr (e, w')"
      for derived e w'
      using Entity_ctor_counter [OF that] by simp
    show "s_next_entity_id w' = s_next_entity_id w + 1"
      if "Entity_ctor value_init derived w = Inr (e, w')" for derived e w'
      using Entity_ctor_counter [OF that] by simp
    show "m_id e \<notin> m_id ` set handles"
      if "reachable value_init u handles" "length (s_entity_archetype_map u) < 2 ^ 64"
        "Entity_ctor value_init derived u = Inr (e, u')"
      for u handles derived e u'
      using that by (rule fresh)
  qed
qed

theorem AllocateID_increasing_witness:
  "unat (s_next_entity_id world_A) + 3 \<le> 2 ^ 64
   \<and> fst (AllocateID_n 3 world_A) = [1, 2, 3]
   \<and> sorted_wrt (<) (fst (AllocateID_n 3 world_A))
   \<and> distinct (fst (AllocateID_n 3 world_A))
   \<and> reachable value_init0 world_A [entity_A, entity_A]
   \<and> length (s_entity_archetype_map world_A) < 2 ^ 64
   \<and> Entity_ctor value_init0 shape_B world_A = Inr (entity_B, world_AB)
   \<and> m_id entity_B = fst (AllocateID world_A)
   \<and> m_id entity_B \<notin> m_id ` set [entity_A, entity_A]"
proof -
  have h: "unat (s_next_entity_id world_A) + 3 \<le> 2 ^ 64"
    by (simp add: world_A_def)
  have ids: "fst (AllocateID_n 3 world_A) = [1, 2, 3]"
    by (simp add: AllocateID_def world_A_def numeral_3_eq_3)
  have len: "length (s_entity_archetype_map world_A) < 2 ^ 64"
    by (simp add: world_A_def)
  note facts = AllocateID_increasing [OF h, of value_init0]
  from facts have "sorted_wrt (<) (fst (AllocateID_n 3 world_A))"
    and "distinct (fst (AllocateID_n 3 world_A))"
    by simp_all
  moreover from facts ctor_B have "m_id entity_B = fst (AllocateID world_A)"
    by - (elim conjE, erule allE, erule allE, erule allE, erule impE, assumption, simp)
  moreover from facts have
    "\<forall>u handles derived e u'. reachable value_init0 u handles
            \<longrightarrow> length (s_entity_archetype_map u) < 2 ^ 64
            \<longrightarrow> Entity_ctor value_init0 derived u = Inr (e, u')
            \<longrightarrow> m_id e \<notin> m_id ` set handles"
    by (elim conjE)
  then have "m_id entity_B \<notin> m_id ` set [entity_A, entity_A]"
    using reachable_AA len ctor_B
    by - (erule allE [of _ world_A], erule allE [of _ "[entity_A, entity_A]"],
      erule allE [of _ shape_B], erule allE [of _ entity_B], erule allE [of _ world_AB],
      erule impE, assumption, erule impE, assumption, erule impE, assumption, assumption)
  ultimately show ?thesis
    using h ids ctor_B reachable_AA len by simp
qed

end
